theory Spec2Isabelle
  imports Main "HOL-Library.Word" "HOL-Library.AList" "HOL-Library.Char_ord"
    "HOL-Library.List_Lexorder" "HOL-Library.Multiset" "HOL-Library.Sublist"
begin

section \<open>Go values\<close>

text \<open>
  A Go \<^verbatim>\<open>string\<close> is a sequence of bytes: the model uses \<^typ>\<open>string\<close>, a list of
  8-bit characters. Go's \<^verbatim>\<open>int\<close> is taken on a 64-bit platform: a \<^typ>\<open>64 word\<close> read
  signed (\<^const>\<open>sint\<close>), whose addition wraps as Go's does.
\<close>

type_synonym goint = "64 word"

section \<open>The standard library functions the program calls\<close>

text \<open>
  The functions of packages \<^verbatim>\<open>strings\<close>, \<^verbatim>\<open>strconv\<close>, \<^verbatim>\<open>path/filepath\<close> and
  \<^verbatim>\<open>bufio\<close> are not part of the repository; each is modelled from its documented
  behaviour (on a Unix system, where the path separator is \<^verbatim>\<open>/\<close>).
\<close>

subsection \<open>Package strings\<close>

definition strings_HasPrefix :: "string \<Rightarrow> string \<Rightarrow> bool" where
  "strings_HasPrefix s p = (take (length p) s = p)"

definition strings_HasSuffix :: "string \<Rightarrow> string \<Rightarrow> bool" where
  "strings_HasSuffix s suf = (length suf \<le> length s \<and> drop (length s - length suf) s = suf)"

fun strings_Contains :: "string \<Rightarrow> string \<Rightarrow> bool" where
  "strings_Contains [] sub = (sub = [])"
| "strings_Contains (c # cs) sub = (strings_HasPrefix (c # cs) sub \<or> strings_Contains cs sub)"

text \<open>\<^verbatim>\<open>strings.Split(s, sep)\<close> for a separator of one byte: the pieces between the
  separators, empty pieces included; a string without separator is the only piece.\<close>

fun strings_Split :: "string \<Rightarrow> char \<Rightarrow> string list" where
  "strings_Split [] sep = [[]]"
| "strings_Split (c # cs) sep =
     (if c = sep then [] # strings_Split cs sep
      else (case strings_Split cs sep of
              [] \<Rightarrow> [[c]]
            | p # ps \<Rightarrow> (c # p) # ps))"

text \<open>\<^verbatim>\<open>strings.LastIndex(s, sep)\<close> for a separator of one byte; \<open>None\<close> is Go's -1.\<close>

fun strings_LastIndex :: "string \<Rightarrow> char \<Rightarrow> nat option" where
  "strings_LastIndex [] sep = None"
| "strings_LastIndex (c # cs) sep =
     (case strings_LastIndex cs sep of
        Some i \<Rightarrow> Some (Suc i)
      | None \<Rightarrow> (if c = sep then Some 0 else None))"

text \<open>
  White space is \<^verbatim>\<open>unicode.IsSpace\<close>: the six ASCII characters tab, line feed, vertical
  tab, form feed, carriage return and space, and the code points U+0085, U+00A0, U+1680,
  U+2000 to U+200A, U+2028, U+2029, U+202F, U+205F and U+3000. Go decodes a string as
  UTF-8; the first byte of each of these encodings is never a continuation byte, so a
  white-space rune stands in a string exactly where its encoding does.
  \<open>spaceWidth s\<close> is the number of bytes of the white-space rune at the head of \<open>s\<close>,
  0 when there is none.
\<close>

definition asciiSpace :: "char \<Rightarrow> bool" where
  "asciiSpace c = (c = CHR 0x09 \<or> c = CHR 0x0A \<or> c = CHR 0x0B \<or> c = CHR 0x0C
     \<or> c = CHR 0x0D \<or> c = CHR 0x20)"

definition spaceWidth :: "string \<Rightarrow> nat" where
  "spaceWidth s =
     (case s of
        [] \<Rightarrow> 0
      | c # r \<Rightarrow>
          if asciiSpace c then 1
          else if c = CHR 0xC2 then
            (case r of d # _ \<Rightarrow> if d = CHR 0x85 \<or> d = CHR 0xA0 then 2 else 0 | [] \<Rightarrow> 0)
          else if c = CHR 0xE1 then
            (if take 2 r = [CHR 0x9A, CHR 0x80] then 3 else 0)
          else if c = CHR 0xE2 then
            (case r of
               d # e # _ \<Rightarrow>
                 if d = CHR 0x80 \<and>
                    ((0x80 \<le> (of_char e :: nat) \<and> (of_char e :: nat) \<le> 0x8A)
                      \<or> e = CHR 0xA8 \<or> e = CHR 0xA9 \<or> e = CHR 0xAF) then 3
                 else if d = CHR 0x81 \<and> e = CHR 0x9F then 3
                 else 0
             | _ \<Rightarrow> 0)
          else if c = CHR 0xE3 then
            (if take 2 r = [CHR 0x80, CHR 0x80] then 3 else 0)
          else 0)"

text \<open>\<^verbatim>\<open>strings.Fields\<close>: the maximal runs of bytes between white-space runes.
  \<open>cur\<close> is the field being read.\<close>

function fieldsFrom :: "string \<Rightarrow> string \<Rightarrow> string list" where
  "fieldsFrom cur s =
     (case s of
        [] \<Rightarrow> (if cur = [] then [] else [cur])
      | c # r \<Rightarrow>
          if 0 < spaceWidth s
          then (if cur = [] then [] else [cur]) @ fieldsFrom [] (drop (spaceWidth s) s)
          else fieldsFrom (cur @ [c]) r)"
  by pat_completeness auto
termination
  by (relation "measure (\<lambda>(cur, s). length s)") auto

definition strings_Fields :: "string \<Rightarrow> string list" where
  "strings_Fields s = fieldsFrom [] s"

text \<open>\<^verbatim>\<open>strings.TrimSpace\<close>: the string without its leading and trailing white-space
  runes.\<close>

function trimLeft :: "string \<Rightarrow> string" where
  "trimLeft s = (if 0 < spaceWidth s \<and> s \<noteq> [] then trimLeft (drop (spaceWidth s) s) else s)"
  by pat_completeness auto
termination
  by (relation "measure length") auto

definition lastSpaceWidth :: "string \<Rightarrow> nat" where
  "lastSpaceWidth s =
     (if 1 \<le> length s \<and> spaceWidth (drop (length s - 1) s) = 1 then 1
      else if 2 \<le> length s \<and> spaceWidth (drop (length s - 2) s) = 2 then 2
      else if 3 \<le> length s \<and> spaceWidth (drop (length s - 3) s) = 3 then 3
      else 0)"

function trimRight :: "string \<Rightarrow> string" where
  "trimRight s =
     (if 0 < lastSpaceWidth s \<and> s \<noteq> []
      then trimRight (take (length s - lastSpaceWidth s) s) else s)"
  by pat_completeness auto
termination
  by (relation "measure length") auto

definition strings_TrimSpace :: "string \<Rightarrow> string" where
  "strings_TrimSpace s = trimRight (trimLeft s)"

subsection \<open>Package strconv\<close>

text \<open>
  \<^verbatim>\<open>strconv.Atoi\<close> accepts an optional sign followed by one or more decimal digits
  whose value fits a 64-bit signed integer. Every other string is an error
  (\<^verbatim>\<open>ErrSyntax\<close> or \<^verbatim>\<open>ErrRange\<close>); the program only tests the error against
  \<^verbatim>\<open>nil\<close>, so the model returns \<open>None\<close> for both.
\<close>

definition isDigit :: "char \<Rightarrow> bool" where
  "isDigit c = (48 \<le> (of_char c :: nat) \<and> (of_char c :: nat) \<le> 57)"

definition decimalValue :: "string \<Rightarrow> int" where
  "decimalValue ds = foldl (\<lambda>n c. 10 * n + (int (of_char c) - 48)) 0 ds"

definition strconv_Atoi :: "string \<Rightarrow> goint option" where
  "strconv_Atoi s =
     (let neg = (s \<noteq> [] \<and> hd s = CHR ''-'');
          ds = (if s \<noteq> [] \<and> (hd s = CHR ''-'' \<or> hd s = CHR ''+'') then tl s else s)
      in if ds = [] \<or> \<not> list_all isDigit ds then None
         else let v = (if neg then - decimalValue ds else decimalValue ds)
              in if - (2 ^ 63) \<le> v \<and> v \<le> 2 ^ 63 - 1 then Some (word_of_int v) else None)"

subsection \<open>Package path/filepath\<close>

text \<open>
  \<^verbatim>\<open>filepath.Clean\<close> works on the elements of the path between separators: it drops
  empty elements and \<^verbatim>\<open>.\<close> elements, drops a \<^verbatim>\<open>..\<close> element together with the
  element before it (when that is not itself \<^verbatim>\<open>..\<close>), drops a \<^verbatim>\<open>..\<close> that would
  leave the root of a rooted path, and keeps it at the start of a path that is not
  rooted. The result of an empty path is \<^verbatim>\<open>.\<close>.
  \<open>cleanStep\<close> handles one element; the elements kept so far are its first argument.
\<close>

definition cleanStep :: "bool \<Rightarrow> string list \<Rightarrow> string \<Rightarrow> string list" where
  "cleanStep rooted out e =
     (if e = [] \<or> e = ''.'' then out
      else if e = ''..'' then
        (if out \<noteq> [] \<and> last out \<noteq> ''..'' then butlast out
         else if rooted then out
         else out @ [e])
      else out @ [e])"

fun joinSlash :: "string list \<Rightarrow> string" where
  "joinSlash [] = []"
| "joinSlash [e] = e"
| "joinSlash (e # es) = e @ ''/'' @ joinSlash es"

definition filepath_Clean :: "string \<Rightarrow> string" where
  "filepath_Clean path =
     (let rooted = (path \<noteq> [] \<and> hd path = CHR ''/'');
          out = foldl (cleanStep rooted) [] (strings_Split path CHR ''/'');
          res = (if rooted then ''/'' else []) @ joinSlash out
      in if res = [] then ''.'' else res)"

text \<open>\<^verbatim>\<open>filepath.Dir\<close>: everything up to and including the last separator, cleaned.\<close>

definition filepath_Dir :: "string \<Rightarrow> string" where
  "filepath_Dir path = filepath_Clean (rev (dropWhile (\<lambda>c. c \<noteq> CHR ''/'') (rev path)))"

text \<open>\<^verbatim>\<open>filepath.Join\<close> of two elements: the elements that are not empty, joined by a
  separator and cleaned; the empty string when both are empty.\<close>

definition filepath_Join :: "string \<Rightarrow> string \<Rightarrow> string" where
  "filepath_Join a b =
     (if a = [] \<and> b = [] then []
      else if a = [] then filepath_Clean b
      else if b = [] then filepath_Clean a
      else filepath_Clean (a @ ''/'' @ b))"

subsection \<open>Package bufio\<close>

text \<open>
  A \<^verbatim>\<open>bufio.Scanner\<close> with the default split function \<^verbatim>\<open>ScanLines\<close> returns the lines
  of its input, without the line feed and without one carriage return before it; a last
  line with no line feed is returned when it is not empty. The scanner's buffer holds at
  most 65536 bytes (\<^verbatim>\<open>MaxScanTokenSize\<close>): it stops with \<^verbatim>\<open>ErrTooLong\<close> at a line of
  65536 bytes or more. \<open>cur\<close> is the line being read.
\<close>

datatype scanError = ErrTooLong

definition dropCR :: "string \<Rightarrow> string" where
  "dropCR l = (if l \<noteq> [] \<and> last l = CHR 0x0D then butlast l else l)"

definition MaxScanTokenSize :: nat where
  "MaxScanTokenSize = 65536"

fun scanFrom :: "string \<Rightarrow> string \<Rightarrow> scanError + string list" where
  "scanFrom cur [] =
     (if cur = [] then Inr []
      else if MaxScanTokenSize \<le> length cur then Inl ErrTooLong
      else Inr [dropCR cur])"
| "scanFrom cur (c # cs) =
     (if c = CHR 0x0A then
        (if MaxScanTokenSize \<le> length cur then Inl ErrTooLong
         else (case scanFrom [] cs of
                 Inl e \<Rightarrow> Inl e
               | Inr ls \<Rightarrow> Inr (dropCR cur # ls)))
      else scanFrom (cur @ [c]) cs)"

definition scanLines :: "string \<Rightarrow> scanError + string list" where
  "scanLines content = scanFrom [] content"

section \<open>The coverage aggregator\<close>

text \<open>\<^verbatim>\<open>type CoverageStats struct { TotalStatements int; CoveredStatements int }\<close>\<close>

record CoverageStats =
  TotalStatements :: goint
  CoveredStatements :: goint

text \<open>
  \<^verbatim>\<open>packageStats := make(map[string]*CoverageStats)\<close>: an association list with one
  entry per key, in the order the keys were first stored. Every key owns a struct of its
  own, so the pointers are modelled by the structs themselves. Go ranges over a map in an
  order it does not specify; the program sorts the keys before it uses them.
\<close>

type_synonym packageStats = "(string \<times> CoverageStats) list"

text \<open>Lines 306 to 314 of \<^verbatim>\<open>displayCoverageStats\<close>: the entry of \<open>pkgPath\<close> is created
  with both counters 0 when the map has none, then updated. (\<open>cnt\<close> is the source's
  \<^verbatim>\<open>count\<close>.)\<close>

definition addStatements :: "packageStats \<Rightarrow> string \<Rightarrow> goint \<Rightarrow> goint \<Rightarrow> packageStats" where
  "addStatements packageStats pkgPath numStatements cnt =
     (let stats = (case map_of packageStats pkgPath of
                     None \<Rightarrow> \<lparr>TotalStatements = 0, CoveredStatements = 0\<rparr>
                   | Some st \<Rightarrow> st);
          stats1 = stats\<lparr>TotalStatements := TotalStatements stats + numStatements\<rparr>;
          stats2 = (if 0 < sint cnt
                    then stats1\<lparr>CoveredStatements := CoveredStatements stats1 + numStatements\<rparr>
                    else stats1)
      in AList.update pkgPath stats2 packageStats)"

text \<open>The body of the scanning loop (lines 269 to 314): every \<^verbatim>\<open>continue\<close> leaves the
  map as it is.\<close>

definition processLine :: "packageStats \<Rightarrow> string \<Rightarrow> packageStats" where
  "processLine packageStats line =
     (if strings_HasPrefix line ''mode:'' then packageStats
      else
        let parts = strings_Fields line in
        if length parts \<noteq> 3 then packageStats
        else
          let filePart = parts ! 0 in
          (case strings_LastIndex filePart CHR '':'' of
             None \<Rightarrow> packageStats
           | Some colonIdx \<Rightarrow>
               let filePath = take colonIdx filePart;
                   pkgPath = filepath_Dir filePath
               in (case strconv_Atoi (parts ! 1) of
                     None \<Rightarrow> packageStats
                   | Some numStatements \<Rightarrow>
                       (case strconv_Atoi (parts ! 2) of
                          None \<Rightarrow> packageStats
                        | Some cnt \<Rightarrow>
                            addStatements packageStats pkgPath numStatements cnt))))"

text \<open>The scanning loop over the lines the scanner returns, from the empty map.\<close>

definition scanLoop :: "string list \<Rightarrow> packageStats" where
  "scanLoop lines = foldl processLine [] lines"

text \<open>Lines 267 to 319: the map after the loop, or the scanner's error.\<close>

definition coverageTotals :: "string \<Rightarrow> scanError + packageStats" where
  "coverageTotals content =
     (case scanLines content of
        Inl e \<Rightarrow> Inl e
      | Inr lines \<Rightarrow> Inr (scanLoop lines))"

text \<open>
  The summary (lines 321 to 369). A row of the table is the name printed and the two
  counters of the package; the percentage printed is the floating-point quotient of the
  two counters, which the model leaves as the pair. \<open>Table rows c t\<close> is the table
  with its last line, the totals \<^verbatim>\<open>totalCovered\<close> (\<open>c\<close>) and \<^verbatim>\<open>totalStatements\<close>
  (\<open>t\<close>).
\<close>

record summaryRow =
  displayPkg :: string
  rowStats :: CoverageStats

datatype summary =
    NoCoverageData
  | Table "summaryRow list" goint goint

definition pkgNamesOf :: "packageStats \<Rightarrow> string list" where
  "pkgNamesOf packageStats = sort (map fst packageStats)"

text \<open>\<^verbatim>\<open>stats := packageStats[pkg]\<close> for a key \<open>pkg\<close> of the map: the lookup finds the
  entry (lemma \<open>pkgNamesOf_lookup\<close> below), so the other branch is never taken.\<close>

definition statsOf :: "packageStats \<Rightarrow> string \<Rightarrow> CoverageStats" where
  "statsOf packageStats pkg =
     (case map_of packageStats pkg of
        Some stats \<Rightarrow> stats
      | None \<Rightarrow> \<lparr>TotalStatements = 0, CoveredStatements = 0\<rparr>)"

definition truncatePkg :: "string \<Rightarrow> string" where
  "truncatePkg pkg = (if 58 < length pkg then ''...'' @ drop (length pkg - 55) pkg else pkg)"

definition printSummary :: "packageStats \<Rightarrow> summary" where
  "printSummary packageStats =
     (if length packageStats = 0 then NoCoverageData
      else
        let pkgNames = pkgNamesOf packageStats;
            totalStatements = foldl (\<lambda>t pkg. t + TotalStatements (statsOf packageStats pkg)) 0 pkgNames;
            totalCovered = foldl (\<lambda>t pkg. t + CoveredStatements (statsOf packageStats pkg)) 0 pkgNames
        in Table (map (\<lambda>pkg. \<lparr>displayPkg = truncatePkg pkg, rowStats = statsOf packageStats pkg\<rparr>) pkgNames)
             totalCovered totalStatements)"

text \<open>The file at the path given to \<^verbatim>\<open>displayCoverageStats\<close>: missing, present but not
  to be opened, or readable with the contents given.\<close>

datatype fileState = Missing | Unreadable | Content string

datatype statsError = OpenError | ScannerError scanError

definition displayCoverageStats :: "fileState \<Rightarrow> statsError + summary" where
  "displayCoverageStats coverProfile =
     (case coverProfile of
        Missing \<Rightarrow> Inl OpenError
      | Unreadable \<Rightarrow> Inl OpenError
      | Content content \<Rightarrow>
          (case coverageTotals content of
             Inl e \<Rightarrow> Inl (ScannerError e)
           | Inr packageStats \<Rightarrow> Inr (printSummary packageStats)))"

subsection \<open>Notions the statements use\<close>

text \<open>
  A line is well formed when the loop body reaches the update: \<open>parseLine\<close> gives the
  package key, the statement count and the execution count of such a line.
\<close>

definition parseLine :: "string \<Rightarrow> (string \<times> goint \<times> goint) option" where
  "parseLine line =
     (if strings_HasPrefix line ''mode:'' then None
      else (case strings_Fields line of
              [filePart, f2, f3] \<Rightarrow>
                (case strings_LastIndex filePart CHR '':'' of
                   None \<Rightarrow> None
                 | Some colonIdx \<Rightarrow>
                     (case strconv_Atoi f2 of
                        None \<Rightarrow> None
                      | Some numStatements \<Rightarrow>
                          (case strconv_Atoi f3 of
                             None \<Rightarrow> None
                           | Some cnt \<Rightarrow>
                               Some (filepath_Dir (take colonIdx filePart), numStatements, cnt))))
            | _ \<Rightarrow> None))"

text \<open>The statement count and execution count of the well-formed lines of a package, in
  the order of the lines.\<close>

definition packageLines :: "string list \<Rightarrow> string \<Rightarrow> (goint \<times> goint) list" where
  "packageLines lines pkg =
     List.map_filter
       (\<lambda>line. case parseLine line of
                  None \<Rightarrow> None
                | Some (p, n, k) \<Rightarrow> if p = pkg then Some (n, k) else None)
       lines"

text \<open>The counters of a package are ordered when
  \<open>0 \<le> CoveredStatements \<le> TotalStatements\<close>, both read as signed integers.\<close>

definition countersOrdered :: "CoverageStats \<Rightarrow> bool" where
  "countersOrdered stats =
     (0 \<le> sint (CoveredStatements stats) \<and>
      sint (CoveredStatements stats) \<le> sint (TotalStatements stats))"

text \<open>A decimal integer, as \<^verbatim>\<open>strconv.Atoi\<close> reads one: an optional sign and one or
  more digits.\<close>

definition isDecimalInteger :: "string \<Rightarrow> bool" where
  "isDecimalInteger s =
     (let ds = (if s \<noteq> [] \<and> (hd s = CHR ''-'' \<or> hd s = CHR ''+'') then tl s else s)
      in ds \<noteq> [] \<and> list_all isDigit ds)"

text \<open>The file path of a line: the text of its first field before the last colon of
  that field.\<close>

definition lineFilePath :: "string \<Rightarrow> string" where
  "lineFilePath line =
     (case strings_Fields line of
        [] \<Rightarrow> []
      | filePart # _ \<Rightarrow> rev (tl (dropWhile (\<lambda>c. c \<noteq> CHR '':'') (rev filePart))))"

text \<open>
  The name of a directory entry: not empty, without separator, and neither \<^verbatim>\<open>.\<close> nor
  \<^verbatim>\<open>..\<close>. \<open>pathOf\<close> is the path of the directory reached from the current directory
  through the names given.
\<close>

definition validName :: "string \<Rightarrow> bool" where
  "validName n = (n \<noteq> [] \<and> CHR ''/'' \<notin> set n \<and> n \<noteq> ''.'' \<and> n \<noteq> ''..'')"

definition pathOf :: "string list \<Rightarrow> string" where
  "pathOf ns = (if ns = [] then ''.'' else joinSlash ns)"

text \<open>A small coverage profile used in the examples.\<close>

definition profile0 :: string where
  "profile0 = ''mode: atomic'' @ [CHR 0x0A] @ ''a/b.go:1.2,3.4 3 1'' @ [CHR 0x0A]
     @ ''a/c.go:1.2,3.4 4 0'' @ [CHR 0x0A] @ ''x/y.go:5.1,6.2 2 5'' @ [CHR 0x0A]"

text \<open>The rows of a summary, and a second profile with the lines of \<open>profile0\<close> in
  another order.\<close>

definition summaryRows :: "summary \<Rightarrow> summaryRow list" where
  "summaryRows s = (case s of NoCoverageData \<Rightarrow> [] | Table rows c t \<Rightarrow> rows)"

definition profile1 :: string where
  "profile1 = ''x/y.go:5.1,6.2 2 5'' @ [CHR 0x0A] @ ''a/c.go:1.2,3.4 4 0'' @ [CHR 0x0A]
     @ ''mode: atomic'' @ [CHR 0x0A] @ ''a/b.go:1.2,3.4 3 1''"

section \<open>Flags\<close>

text \<open>The package variables \<^verbatim>\<open>verbose\<close> and \<^verbatim>\<open>ignorePatterns\<close>.\<close>

record globals =
  verbose :: bool
  ignorePatterns :: "string list"

text \<open>The loop over the pieces of a flag value (lines 51 to 57 and 69 to 75).\<close>

definition addPatterns :: "string \<Rightarrow> string list \<Rightarrow> string list" where
  "addPatterns v pats =
     foldl (\<lambda>acc p. let p' = strings_TrimSpace p in if p' \<noteq> [] then acc @ [p'] else acc)
       pats (strings_Split v (CHR '',''))"

text \<open>The tests of the \<^verbatim>\<open>switch\<close> of \<^verbatim>\<open>parseFlags\<close>, and the value it takes from an
  argument in the \<^verbatim>\<open>=\<close> form (\<^verbatim>\<open>arg[3:]\<close>, \<^verbatim>\<open>arg[9:]\<close>, \<^verbatim>\<open>arg[8:]\<close>).\<close>

definition isDetailFlag :: "string \<Rightarrow> bool" where
  "isDetailFlag arg = (arg = ''-d'' \<or> arg = ''--detail'' \<or> arg = ''-detail'')"

definition isIgnoreFlag :: "string \<Rightarrow> bool" where
  "isIgnoreFlag arg = (arg = ''-i'' \<or> arg = ''--ignore'' \<or> arg = ''-ignore'')"

definition hasIgnorePrefix :: "string \<Rightarrow> bool" where
  "hasIgnorePrefix arg =
     (strings_HasPrefix arg ''-i='' \<or> strings_HasPrefix arg ''--ignore=''
      \<or> strings_HasPrefix arg ''-ignore='')"

definition ignorePrefixValue :: "string \<Rightarrow> string" where
  "ignorePrefixValue arg =
     (if strings_HasPrefix arg ''-i='' then drop 3 arg
      else if strings_HasPrefix arg ''--ignore='' then drop 9 arg
      else drop 8 arg)"

text \<open>The loop of \<^verbatim>\<open>parseFlags\<close> over the arguments left; an ignore flag that is the last
  argument has no value and changes nothing.\<close>

fun parseFlagsLoop :: "string list \<Rightarrow> globals \<Rightarrow> string list \<Rightarrow> string list \<times> globals" where
  "parseFlagsLoop [] g goTestArgs = (goTestArgs, g)"
| "parseFlagsLoop (arg # rest) g goTestArgs =
     (if isDetailFlag arg
      then parseFlagsLoop rest (g\<lparr>verbose := True\<rparr>) goTestArgs
      else if isIgnoreFlag arg
      then (case rest of
              [] \<Rightarrow> (goTestArgs, g)
            | v # rest' \<Rightarrow>
                parseFlagsLoop rest' (g\<lparr>ignorePatterns := addPatterns v (ignorePatterns g)\<rparr>) goTestArgs)
      else if hasIgnorePrefix arg
      then parseFlagsLoop rest
             (g\<lparr>ignorePatterns := addPatterns (ignorePrefixValue arg) (ignorePatterns g)\<rparr>) goTestArgs
      else parseFlagsLoop rest g (goTestArgs @ [arg]))"

definition parseFlags :: "globals \<Rightarrow> string list \<Rightarrow> string list \<times> globals" where
  "parseFlags g args = parseFlagsLoop args g []"

text \<open>
  The notions of the statement: the patterns a flag value gives; the value of an ignore
  flag in the \<^verbatim>\<open>=\<close> form; and, over an argument list read from left to right (a flag
  \<^verbatim>\<open>-i\<close>, \<^verbatim>\<open>--ignore\<close> or \<^verbatim>\<open>-ignore\<close> takes the argument after it as its value),
  the values of its ignore flags, the arguments that are neither a flag of the tool nor
  the value of one, and whether a detail flag occurs.
\<close>

definition patternsOfValue :: "string \<Rightarrow> string list" where
  "patternsOfValue v = filter (\<lambda>p. p \<noteq> []) (map strings_TrimSpace (strings_Split v (CHR '','')))"

definition ignoreEqValue :: "string \<Rightarrow> string option" where
  "ignoreEqValue arg =
     (if strings_HasPrefix arg ''-i='' then Some (drop (length ''-i='') arg)
      else if strings_HasPrefix arg ''--ignore='' then Some (drop (length ''--ignore='') arg)
      else if strings_HasPrefix arg ''-ignore='' then Some (drop (length ''-ignore='') arg)
      else None)"

fun ignoreValues :: "string list \<Rightarrow> string list" where
  "ignoreValues [] = []"
| "ignoreValues [arg] = (case ignoreEqValue arg of Some v \<Rightarrow> [v] | None \<Rightarrow> [])"
| "ignoreValues (arg # next # rest) =
     (if isIgnoreFlag arg then next # ignoreValues rest
      else (case ignoreEqValue arg of
              Some v \<Rightarrow> v # ignoreValues (next # rest)
            | None \<Rightarrow> ignoreValues (next # rest)))"

fun passThrough :: "string list \<Rightarrow> string list" where
  "passThrough [] = []"
| "passThrough [arg] =
     (if isDetailFlag arg \<or> isIgnoreFlag arg \<or> ignoreEqValue arg \<noteq> None then [] else [arg])"
| "passThrough (arg # next # rest) =
     (if isIgnoreFlag arg then passThrough rest
      else if isDetailFlag arg \<or> ignoreEqValue arg \<noteq> None then passThrough (next # rest)
      else arg # passThrough (next # rest))"

fun detailSeen :: "string list \<Rightarrow> bool" where
  "detailSeen [] = False"
| "detailSeen [arg] = isDetailFlag arg"
| "detailSeen (arg # next # rest) =
     (if isIgnoreFlag arg then detailSeen rest
      else isDetailFlag arg \<or> detailSeen (next # rest))"


section \<open>Package discovery\<close>

text \<open>
  The directory tree under the root of the walk, as \<^verbatim>\<open>filepath.Walk\<close> sees it: an entry
  is a directory with the entries \<^verbatim>\<open>ReadDir\<close> returns for it (Walk visits them in the
  order of their names), a directory that cannot be read, an entry that is not a
  directory (a file), or an entry whose \<^verbatim>\<open>Lstat\<close> fails.
\<close>

datatype fsNode = File | Dir "(string \<times> fsNode) list" | UnreadableDir | NoStat

text \<open>The error Walk hands to the callback, which returns it: with the path it
  belongs to.\<close>

datatype walkError = LstatError string | ReadDirError string

text \<open>The variables the callback closes over: \<^verbatim>\<open>packages\<close> and the map \<^verbatim>\<open>seen\<close>
  (a \<^verbatim>\<open>map[string]bool\<close>, false where it has no entry).\<close>

type_synonym walkState = "string list \<times> (string \<Rightarrow> bool)"

text \<open>\<^verbatim>\<open>info.Name()\<close> of the root is the base name of the path given to \<^verbatim>\<open>Lstat\<close>:
  the path without its trailing separators (the first byte is kept), then the text after
  the last separator.\<close>

definition os_basename :: "string \<Rightarrow> string" where
  "os_basename name =
     (let stripped = (case name of
                        [] \<Rightarrow> []
                      | c # cs \<Rightarrow> c # rev (dropWhile (\<lambda>x. x = CHR ''/'') (rev cs)))
      in if stripped = ''/'' then stripped
         else rev (takeWhile (\<lambda>x. x \<noteq> CHR ''/'') (rev stripped)))"

text \<open>
  The callback of \<^verbatim>\<open>findGoPackages\<close> for a directory (lines 385 to 397): whether it
  returns \<^verbatim>\<open>filepath.SkipDir\<close>. \<^verbatim>\<open>shouldIgnore\<close> is a function of the repository whose
  source is not part of the files given; it is a parameter of the model.
\<close>

definition skipDir :: "(string \<Rightarrow> bool) \<Rightarrow> string \<Rightarrow> string \<Rightarrow> bool" where
  "skipDir shouldIgnore name path =
     ((strings_HasPrefix name ''.'' \<and> name \<noteq> ''.'') \<or> name = ''vendor'' \<or> name = ''testdata''
      \<or> shouldIgnore path)"

text \<open>The callback for an entry that is not a directory (lines 399 to 413).\<close>

definition visitFile :: "(string \<Rightarrow> bool) \<Rightarrow> string \<Rightarrow> walkState \<Rightarrow> walkState" where
  "visitFile shouldIgnore path st =
     (case st of (packages, seen) \<Rightarrow>
        if strings_HasSuffix path ''.go'' then
          (let dir = filepath_Dir path in
           if \<not> seen dir \<and> \<not> shouldIgnore dir then
             (if dir = ''.'' then packages @ [''./.''] else packages @ [''./'' @ dir],
              seen(dir := True))
           else (packages, seen))
        else (packages, seen))"

text \<open>
  \<^verbatim>\<open>filepath.Walk\<close> with the callback of \<^verbatim>\<open>findGoPackages\<close>. The callback returns the
  error it is given before anything else, and Walk stops at it; a directory the callback
  skips is not entered. \<open>walkNames\<close> is Walk's loop over the entries of a directory.
\<close>

fun walk :: "(string \<Rightarrow> bool) \<Rightarrow> string \<Rightarrow> string \<Rightarrow> fsNode \<Rightarrow> walkState \<Rightarrow> walkError + walkState"
  and walkNames :: "(string \<Rightarrow> bool) \<Rightarrow> string \<Rightarrow> (string \<times> fsNode) list \<Rightarrow> walkState \<Rightarrow> walkError + walkState"
where
  "walk shouldIgnore path name NoStat st = Inl (LstatError path)"
| "walk shouldIgnore path name UnreadableDir st = Inl (ReadDirError path)"
| "walk shouldIgnore path name File st = Inr (visitFile shouldIgnore path st)"
| "walk shouldIgnore path name (Dir entries) st =
     (if skipDir shouldIgnore name path then Inr st
      else walkNames shouldIgnore path entries st)"
| "walkNames shouldIgnore path [] st = Inr st"
| "walkNames shouldIgnore path (e # rest) st =
     (case walk shouldIgnore (filepath_Join path (fst e)) (fst e) (snd e) st of
        Inl err \<Rightarrow> Inl err
      | Inr st' \<Rightarrow> walkNames shouldIgnore path rest st')"

text \<open>\<^verbatim>\<open>findGoPackages(root)\<close>, on the tree found at \<open>root\<close>.\<close>

definition findGoPackages :: "(string \<Rightarrow> bool) \<Rightarrow> string \<Rightarrow> fsNode \<Rightarrow> walkError + string list" where
  "findGoPackages shouldIgnore root tree =
     (case walk shouldIgnore root (os_basename root) tree ([], \<lambda>dir. False) of
        Inl err \<Rightarrow> Inl err
      | Inr (packages, seen) \<Rightarrow> Inr packages)"

text \<open>The notions of the statement. In a valid tree every entry has the name of a
  directory entry; in a readable tree no entry fails to be read.\<close>

fun validTree :: "fsNode \<Rightarrow> bool" and validEntries :: "(string \<times> fsNode) list \<Rightarrow> bool" where
  "validTree (Dir entries) = validEntries entries"
| "validTree File = True"
| "validTree UnreadableDir = True"
| "validTree NoStat = True"
| "validEntries [] = True"
| "validEntries (e # rest) = (validName (fst e) \<and> validTree (snd e) \<and> validEntries rest)"

text \<open>\<open>nodeAt t ns x\<close>: following the names \<open>ns\<close> from \<open>t\<close> downwards leads to \<open>x\<close>.\<close>

inductive nodeAt :: "fsNode \<Rightarrow> string list \<Rightarrow> fsNode \<Rightarrow> bool" where
  here: "nodeAt t [] t"
| down: "(n, c) \<in> set entries \<Longrightarrow> nodeAt c ns x \<Longrightarrow> nodeAt (Dir entries) (n # ns) x"

text \<open>The directory reached from the root through the names \<open>ns\<close> is skipped: its
  name starts with a dot (the root has no name here), or is \<^verbatim>\<open>vendor\<close> or \<^verbatim>\<open>testdata\<close>,
  or \<^verbatim>\<open>shouldIgnore\<close> holds of its path.\<close>

definition skippedAt :: "(string \<Rightarrow> bool) \<Rightarrow> string list \<Rightarrow> bool" where
  "skippedAt shouldIgnore ns =
     ((ns \<noteq> [] \<and> (strings_HasPrefix (last ns) ''.'' \<or> last ns = ''vendor'' \<or> last ns = ''testdata''))
      \<or> shouldIgnore (pathOf ns))"

text \<open>A directory has a Go file when one of its entries that are not directories has a
  name ending in \<^verbatim>\<open>.go\<close>.\<close>

definition hasGoFile :: "(string \<times> fsNode) list \<Rightarrow> bool" where
  "hasGoFile entries = (\<exists>f. (f, File) \<in> set entries \<and> strings_HasSuffix f ''.go'')"

text \<open>The directories with a Go file at or below \<open>node\<close>, itself reached through
  \<open>pre\<close>, such that no directory from \<open>node\<close> down to them is skipped; and those of a
  whole tree.\<close>

definition goDirsBelow :: "(string \<Rightarrow> bool) \<Rightarrow> string list \<Rightarrow> fsNode \<Rightarrow> string list set" where
  "goDirsBelow shouldIgnore pre node =
     {pre @ ns | ns. \<exists>entries. nodeAt node ns (Dir entries) \<and> hasGoFile entries
        \<and> (\<forall>k \<le> length ns. \<not> skippedAt shouldIgnore (pre @ take k ns))}"

definition goPackageDirs :: "(string \<Rightarrow> bool) \<Rightarrow> fsNode \<Rightarrow> string list set" where
  "goPackageDirs shouldIgnore tree = goDirsBelow shouldIgnore [] tree"

text \<open>Notions of the proof: the directories marked in \<^verbatim>\<open>seen\<close>, the invariant of the
  walk, and what one entry of a directory contributes.\<close>

definition seenSet :: "walkState \<Rightarrow> string set" where
  "seenSet st = {d. snd st d}"

definition walkInv :: "walkState \<Rightarrow> bool" where
  "walkInv st = (distinct (fst st) \<and> set (fst st) = (\<lambda>d. ''./'' @ d) ` seenSet st)"

definition entryDirs :: "(string \<Rightarrow> bool) \<Rightarrow> string list \<Rightarrow> string \<times> fsNode \<Rightarrow> string list set" where
  "entryDirs shouldIgnore ns e =
     (case snd e of
        File \<Rightarrow> if strings_HasSuffix (fst e) ''.go'' then {ns} else {}
      | node \<Rightarrow> goDirsBelow shouldIgnore (ns @ [fst e]) node)"

text \<open>A tree used in the examples.\<close>

definition tree1 :: fsNode where
  "tree1 = Dir [(''.git'', Dir [(''hook.go'', File)]),
                (''README.md'', File),
                (''cmd'', Dir [(''tool'', Dir [(''a.go'', File), (''b.go'', File)])]),
                (''docs'', Dir [(''gen.go'', File)]),
                (''main.go'', File),
                (''main_test.go'', File),
                (''vendor'', Dir [(''dep'', Dir [(''d.go'', File)])])]"

fun readableTree :: "fsNode \<Rightarrow> bool" and readableEntries :: "(string \<times> fsNode) list \<Rightarrow> bool" where
  "readableTree (Dir entries) = readableEntries entries"
| "readableTree File = True"
| "readableTree UnreadableDir = False"
| "readableTree NoStat = False"
| "readableEntries [] = True"
| "readableEntries (e # rest) = (readableTree (snd e) \<and> readableEntries rest)"

section \<open>Running the tests\<close>

text \<open>
  What lies outside the program is given by an environment: the directory tree under the
  current directory, the function \<^verbatim>\<open>shouldIgnore\<close> (a function of the repository whose
  source is not part of the files given; it reads the patterns), what the command
  \<^verbatim>\<open>go\<close> does with given arguments (the chunks it writes to its two streams, in order,
  and the error of \<^verbatim>\<open>cmd.Run\<close>, if any), the state of \<^verbatim>\<open>/tmp/cover.out\<close> when the
  tests are over, the operating system, and the error of \<^verbatim>\<open>cmd.Start\<close> for the
  command that opens the browser.
\<close>

datatype stream = Stdout | Stderr

record procResult =
  procOutput :: "(stream \<times> string) list"
  procError :: "string option"

record env =
  fsTree :: fsNode
  shouldIgnoreFn :: "string list \<Rightarrow> string \<Rightarrow> bool"
  goTest :: "string list \<Rightarrow> procResult"
  coverOut :: fileState
  goToolCover :: "string list \<Rightarrow> procResult"
  goos :: string
  startCmd :: "string \<Rightarrow> string list \<Rightarrow> string option"

text \<open>The errors \<^verbatim>\<open>openBrowser\<close> and \<^verbatim>\<open>run\<close> return: the underlying error, under the
  prefix \<^verbatim>\<open>run\<close> wraps it with.\<close>

datatype browserError = UnsupportedPlatform string | StartError string

datatype error =
    FindingPackages walkError
  | ProfileNotGenerated string
  | GeneratingHTML string
  | OpeningBrowser browserError

text \<open>
  What the program does, in order: a write to its standard output or standard error
  (the summary table, the usage text, and the lines that format an error with
  \<^verbatim>\<open>%v\<close> are kept as values), and the start of an external command.
\<close>

datatype event =
    Out string
  | Err string
  | OutSummary summary
  | OutUsage
  | ErrError error
  | ErrWarning statsError
  | Exec string "string list"

text \<open>\<^verbatim>\<open>%d\<close> of a length, and \<^verbatim>\<open>strings.Join\<close>.\<close>

fun showNat :: "nat \<Rightarrow> string" where
  "showNat n = (if n < 10 then [char_of (48 + n)] else showNat (n div 10) @ [char_of (48 + n mod 10)])"

fun strings_Join :: "string list \<Rightarrow> string \<Rightarrow> string" where
  "strings_Join [] sep = []"
| "strings_Join [e] sep = e"
| "strings_Join (e # es) sep = e @ sep @ strings_Join es sep"

text \<open>\<^verbatim>\<open>printTestErrors\<close>: the lines of the output that pass its test, each printed with
  \<^verbatim>\<open>Println\<close>.\<close>

definition isErrorLine :: "string \<Rightarrow> bool" where
  "isErrorLine line =
     (strings_Contains line ''FAIL'' \<or>
      strings_Contains line ''Error'' \<or>
      strings_Contains line ''error'' \<or>
      strings_Contains line ''panic'' \<or>
      strings_Contains line ''--- FAIL'' \<or>
      strings_HasPrefix (strings_TrimSpace line) ''got:'' \<or>
      strings_HasPrefix (strings_TrimSpace line) ''want:'' \<or>
      strings_HasPrefix (strings_TrimSpace line) ''expected'' \<or>
      strings_Contains line ''_test.go:'')"

definition printTestErrors :: "string \<Rightarrow> event list" where
  "printTestErrors out =
     map (\<lambda>line. Out (line @ [CHR 0x0A])) (filter isErrorLine (strings_Split out (CHR 0x0A)))"

text \<open>
  Lines 161 to 183 of \<^verbatim>\<open>run\<close>. With \<^verbatim>\<open>verbose\<close> the command writes to the program's
  own standard output and standard error; without, both streams go to one buffer, which
  is printed through \<^verbatim>\<open>printTestErrors\<close> when the command returned an error.
\<close>

definition passThroughOutput :: "procResult \<Rightarrow> event list" where
  "passThroughOutput r = map (\<lambda>(s, text). case s of Stdout \<Rightarrow> Out text | Stderr \<Rightarrow> Err text) (procOutput r)"

definition runTests :: "bool \<Rightarrow> procResult \<Rightarrow> event list" where
  "runTests verb r =
     (if verb then passThroughOutput r
      else (let testOutput = concat (map snd (procOutput r))
            in if procError r \<noteq> None
               then [Out ([CHR 0x0A] @ ''--- TEST ERRORS ---'' @ [CHR 0x0A])]
                    @ printTestErrors testOutput
                    @ [Out (''-------------------'' @ [CHR 0x0A])]
               else []))"

text \<open>\<^verbatim>\<open>openBrowser\<close>.\<close>

definition openBrowser :: "env \<Rightarrow> string \<Rightarrow> browserError option \<times> event list" where
  "openBrowser e url =
     (let cmd = (if goos e = ''darwin'' then Some (''open'', [url])
                 else if goos e = ''linux'' then Some (''xdg-open'', [url])
                 else if goos e = ''windows'' then Some (''cmd'', [''/c'', ''start'', url])
                 else None)
      in case cmd of
           None \<Rightarrow> (Some (UnsupportedPlatform (goos e)), [])
         | Some (prog, args) \<Rightarrow>
             (map_option StartError (startCmd e prog args), [Exec prog args]))"

text \<open>\<^verbatim>\<open>run\<close>: the two paths, the arguments of the test runner (lines 143 to 152), the
  lines that announce the packages (lines 128 to 136), and the function.\<close>

definition coverProfile :: string where "coverProfile = ''/tmp/cover.out''"
definition coverHTML :: string where "coverHTML = ''/tmp/cover.html''"

definition goTestArgs :: "string list \<Rightarrow> string list \<Rightarrow> string list" where
  "goTestArgs userArgs packages =
     ([''test''] @ [''-coverprofile='' @ coverProfile, ''-covermode=atomic'']) @ userArgs @ packages"

definition announce :: "bool \<Rightarrow> string list \<Rightarrow> event list" where
  "announce verb packages =
     (if verb
      then [Out (''Found '' @ showNat (length packages) @ '' package(s) with Go files:'' @ [CHR 0x0A])]
           @ map (\<lambda>pkg. Out (''  - '' @ pkg @ [CHR 0x0A])) packages
           @ [Out [CHR 0x0A]]
      else [Out (''Testing '' @ showNat (length packages) @ '' package(s)...'' @ [CHR 0x0A])])"

definition run :: "env \<Rightarrow> globals \<Rightarrow> string list \<Rightarrow> error option \<times> event list" where
  "run e g userArgs =
     (case findGoPackages (shouldIgnoreFn e (ignorePatterns g)) ''.'' (fsTree e) of
        Inl err \<Rightarrow> (Some (FindingPackages err), [])
      | Inr packages \<Rightarrow>
          if length packages = 0 then (None, [Out (''No Go packages found'' @ [CHR 0x0A])])
          else
            let args = goTestArgs userArgs packages;
                test = goTest e args;
                ev1 = announce (verbose g) packages
                  @ (if verbose g
                     then [Out (''Running: go '' @ strings_Join args '' '' @ [CHR 0x0A, CHR 0x0A])]
                     else [])
                  @ [Exec ''go'' args]
                  @ runTests (verbose g) test
                  @ (if procError test \<noteq> None
                     then [Err ([CHR 0x0A] @ ''Tests failed'' @ [CHR 0x0A])]
                     else [Out (''All tests passed'' @ [CHR 0x0A])])
            in if coverOut e = Missing then (Some (ProfileNotGenerated coverProfile), ev1)
               else
                 let rule = replicate 60 (CHR ''='') @ [CHR 0x0A];
                     coverArgs = [''tool'', ''cover'', ''-html='' @ coverProfile, ''-o'', coverHTML];
                     cover = goToolCover e coverArgs;
                     ev2 = ev1
                       @ [Out [CHR 0x0A], Out rule, Out (''COVERAGE SUMMARY'' @ [CHR 0x0A]), Out rule]
                       @ (case displayCoverageStats (coverOut e) of
                            Inl err \<Rightarrow> [ErrWarning err]
                          | Inr s \<Rightarrow> [OutSummary s])
                       @ [Out rule]
                       @ (if verbose g
                          then [Out ([CHR 0x0A] @ ''Generating coverage report: '' @ coverHTML @ [CHR 0x0A])]
                          else [])
                       @ [Exec ''go'' coverArgs]
                       @ (if verbose g then passThroughOutput cover else [])
                 in case procError cover of
                      Some msg \<Rightarrow> (Some (GeneratingHTML msg), ev2)
                    | None \<Rightarrow>
                        let ev3 = ev2 @ [Out ([CHR 0x0A] @ ''Opening '' @ coverHTML @ '' in browser...'' @ [CHR 0x0A])]
                        in (case openBrowser e coverHTML of
                              (Some err, evs) \<Rightarrow> (Some (OpeningBrowser err), ev3 @ evs)
                            | (None, evs) \<Rightarrow> (None, ev3 @ evs)))"

text \<open>\<^verbatim>\<open>main\<close>: the exit status of the process and what it did. The package variables
  start as \<^verbatim>\<open>false\<close> and \<^verbatim>\<open>nil\<close>.\<close>

definition isHelpFlag :: "string \<Rightarrow> bool" where
  "isHelpFlag arg = (arg = ''-h'' \<or> arg = ''--help'' \<or> arg = ''-help'')"

definition main :: "env \<Rightarrow> string list \<Rightarrow> nat \<times> event list" where
  "main e osArgs =
     (case parseFlags \<lparr>verbose = False, ignorePatterns = []\<rparr> osArgs of
        (args, g) \<Rightarrow>
          if list_ex isHelpFlag args then (0, [OutUsage])
          else (case run e g args of
                  (None, evs) \<Rightarrow> (0, evs)
                | (Some err, evs) \<Rightarrow> (1, evs @ [ErrError err])))"

text \<open>Notions of the statements: an event that starts a command; the line printed after
  the tests; two environments used in the examples.\<close>

definition isExec :: "event \<Rightarrow> bool" where
  "isExec ev = (case ev of Exec prog args \<Rightarrow> True | _ \<Rightarrow> False)"

definition statusLine :: "procResult \<Rightarrow> event" where
  "statusLine r =
     (if procError r \<noteq> None then Err ([CHR 0x0A] @ ''Tests failed'' @ [CHR 0x0A])
      else Out (''All tests passed'' @ [CHR 0x0A]))"

definition env1 :: env where
  "env1 = \<lparr>fsTree = Dir [(''main.go'', File)],
           shouldIgnoreFn = (\<lambda>pats path. list_ex (strings_Contains path) pats),
           goTest = (\<lambda>args. \<lparr>procOutput = [(Stdout, ''ok  pkg/a'' @ [CHR 0x0A]),
                                            (Stderr, ''--- FAIL: TestX'' @ [CHR 0x0A])],
                              procError = Some ''exit status 1''\<rparr>),
           coverOut = Content profile0,
           goToolCover = (\<lambda>args. \<lparr>procOutput = [], procError = None\<rparr>),
           goos = ''linux'',
           startCmd = (\<lambda>prog args. None)\<rparr>"

definition env0 :: env where
  "env0 = env1\<lparr>fsTree := tree1\<rparr>"

section \<open>Properties\<close>

subsection \<open>Strings and paths\<close>

lemmas eval_defs = strings_HasPrefix_def strings_Fields_def spaceWidth_def asciiSpace_def
   strconv_Atoi_def isDigit_def decimalValue_def filepath_Dir_def filepath_Clean_def cleanStep_def

lemma length3_conv: "length xs = 3 \<longleftrightarrow> (\<exists>a b c. xs = [a, b, c])"
  by (cases xs; simp; cases "tl xs"; simp; cases "tl (tl xs)"; auto)

lemma Split_no_sep: "sep \<notin> set a \<Longrightarrow> strings_Split a sep = [a]"
  by (induction a) auto

lemma Split_append_sep:
  "sep \<notin> set a \<Longrightarrow> strings_Split (a @ sep # b) sep = a # strings_Split b sep"
  by (induction a) auto

lemma LastIndex_None_iff: "(strings_LastIndex s sep = None) = (sep \<notin> set s)"
  by (induction s) (auto split: option.splits)

lemma LastIndex_SomeD:
  "strings_LastIndex s sep = Some i \<Longrightarrow> \<exists>a b. s = a @ sep # b \<and> sep \<notin> set b \<and> length a = i"
proof (induction s arbitrary: i)
  case Nil
  then show ?case by simp
next
  case (Cons c cs)
  show ?case
  proof (cases "strings_LastIndex cs sep")
    case None
    then have "c = sep" "i = 0" "sep \<notin> set cs"
      using Cons.prems by (auto simp: LastIndex_None_iff [symmetric] split: if_splits)
    then show ?thesis by (intro exI [of _ "[]"] exI [of _ cs]) auto
  next
    case (Some j)
    then obtain a b where "cs = a @ sep # b" "sep \<notin> set b" "length a = j"
      using Cons.IH by blast
    moreover have "i = Suc j" using Cons.prems Some by simp
    ultimately show ?thesis by (intro exI [of _ "c # a"] exI [of _ b]) auto
  qed
qed

lemma take_LastIndex:
  assumes "strings_LastIndex s sep = Some i"
  shows "take i s = rev (tl (dropWhile (\<lambda>c. c \<noteq> sep) (rev s)))"
proof -
  obtain a b where s: "s = a @ sep # b" "sep \<notin> set b" "length a = i"
    using LastIndex_SomeD [OF assms] by blast
  have "dropWhile (\<lambda>c. c \<noteq> sep) (rev b @ sep # rev a) = sep # rev a"
    using s(2) by (auto simp: dropWhile_append3)
  then show ?thesis using s by simp
qed

lemma Atoi_not_decimal: "\<not> isDecimalInteger s \<Longrightarrow> strconv_Atoi s = None"
  by (auto simp: isDecimalInteger_def strconv_Atoi_def Let_def)

lemma joinSlash_snoc: "ns \<noteq> [] \<Longrightarrow> joinSlash (ns @ [n]) = joinSlash ns @ ''/'' @ n"
  by (induction ns rule: joinSlash.induct) auto

lemma Split_joinSlash:
  "ns \<noteq> [] \<Longrightarrow> \<forall>n \<in> set ns. CHR ''/'' \<notin> set n \<Longrightarrow>
     strings_Split (joinSlash ns @ s) (CHR ''/'') =
       butlast ns @ (case strings_Split (last ns @ s) (CHR ''/'') of [] \<Rightarrow> [] | p # ps \<Rightarrow> p # ps)"
proof (induction ns rule: joinSlash.induct)
  case 1
  then show ?case by simp
next
  case (2 e)
  then show ?case by (simp split: list.splits)
next
  case (3 e v va)
  then show ?case
    using Split_append_sep [of "CHR ''/''" e "joinSlash (v # va) @ s"] by simp
qed

lemma Split_joinSlash_plain:
  "ns \<noteq> [] \<Longrightarrow> \<forall>n \<in> set ns. CHR ''/'' \<notin> set n \<Longrightarrow> strings_Split (joinSlash ns) (CHR ''/'') = ns"
  using Split_joinSlash [of ns "[]"] by (simp add: Split_no_sep)

lemma Split_joinSlash_slash:
  "ns \<noteq> [] \<Longrightarrow> \<forall>n \<in> set ns. CHR ''/'' \<notin> set n \<Longrightarrow>
     strings_Split (joinSlash ns @ ''/'') (CHR ''/'') = ns @ [[]]"
  using Split_joinSlash [of ns "''/''"] Split_append_sep [of "CHR ''/''" "last ns" "[]"]
  by simp

lemma foldl_cleanStep_valid:
  "\<forall>n \<in> set es. validName n \<Longrightarrow> foldl (cleanStep r) out es = out @ es"
  by (induction es arbitrary: out) (auto simp: cleanStep_def validName_def)

lemma hd_joinSlash: "ns \<noteq> [] \<Longrightarrow> hd ns \<noteq> [] \<Longrightarrow> hd (joinSlash ns) = hd (hd ns)"
  by (induction ns rule: joinSlash.induct) auto

lemma joinSlash_nonempty: "ns \<noteq> [] \<Longrightarrow> hd ns \<noteq> [] \<Longrightarrow> joinSlash ns \<noteq> []"
  by (induction ns rule: joinSlash.induct) auto

lemma joinSlash_valid_nonempty:
  "ns \<noteq> [] \<Longrightarrow> \<forall>n \<in> set ns. validName n \<Longrightarrow> joinSlash ns \<noteq> []"
  by (cases ns) (auto simp: validName_def joinSlash_nonempty)

lemma not_rooted_joinSlash:
  assumes "ns \<noteq> []" "\<forall>n \<in> set ns. validName n"
  shows "\<not> (joinSlash ns @ s \<noteq> [] \<and> hd (joinSlash ns @ s) = CHR ''/'')"
proof -
  have h: "hd ns \<noteq> []" "CHR ''/'' \<notin> set (hd ns)"
    using assms by (cases ns; auto simp: validName_def)+
  then have "hd (joinSlash ns @ s) = hd (hd ns)"
    using assms(1) by (simp add: hd_joinSlash joinSlash_nonempty)
  moreover have "hd (hd ns) \<in> set (hd ns)" using h(1) by simp
  ultimately show ?thesis using h(2) by metis
qed

lemma Clean_joinSlash:
  assumes "ns \<noteq> []" "\<forall>n \<in> set ns. validName n"
  shows "filepath_Clean (joinSlash ns) = joinSlash ns"
proof -
  have sl: "\<forall>n \<in> set ns. CHR ''/'' \<notin> set n" using assms(2) by (simp add: validName_def)
  show ?thesis
    using not_rooted_joinSlash [OF assms, of "[]"] joinSlash_valid_nonempty [OF assms]
    by (simp add: filepath_Clean_def Let_def Split_joinSlash_plain [OF assms(1) sl]
        foldl_cleanStep_valid [OF assms(2)])
qed

lemma Clean_joinSlash_slash:
  assumes "ns \<noteq> []" "\<forall>n \<in> set ns. validName n"
  shows "filepath_Clean (joinSlash ns @ ''/'') = joinSlash ns"
proof -
  have sl: "\<forall>n \<in> set ns. CHR ''/'' \<notin> set n" using assms(2) by (simp add: validName_def)
  show ?thesis
    using not_rooted_joinSlash [OF assms, of "''/''"] joinSlash_valid_nonempty [OF assms]
    by (simp add: filepath_Clean_def Let_def Split_joinSlash_slash [OF assms(1) sl]
        foldl_cleanStep_valid [OF assms(2)] cleanStep_def)
qed

lemma dirPrefix_append:
  "CHR ''/'' \<notin> set n \<Longrightarrow>
     rev (dropWhile (\<lambda>c. c \<noteq> CHR ''/'') (rev (a @ ''/'' @ n))) = a @ ''/''"
  by (auto simp: dropWhile_append3 dropWhile_append1)

lemma dirPrefix_plain:
  "CHR ''/'' \<notin> set n \<Longrightarrow> rev (dropWhile (\<lambda>c. c \<noteq> CHR ''/'') (rev n)) = []"
  by (auto simp: dropWhile_eq_Nil_conv)

lemma Dir_joinSlash:
  assumes "\<forall>n \<in> set ns. validName n" "CHR ''/'' \<notin> set f"
  shows "filepath_Dir (joinSlash (ns @ [f])) = pathOf ns"
proof (cases "ns = []")
  case True
  then show ?thesis
    using assms(2)
    by (simp add: filepath_Dir_def dirPrefix_plain pathOf_def filepath_Clean_def cleanStep_def)
next
  case False
  have "rev (dropWhile (\<lambda>c. c \<noteq> CHR ''/'') (rev (joinSlash ns @ ''/'' @ f))) = joinSlash ns @ ''/''"
    using assms(2) by (rule dirPrefix_append)
  then have "filepath_Dir (joinSlash (ns @ [f])) = filepath_Clean (joinSlash ns @ ''/'')"
    by (simp only: filepath_Dir_def joinSlash_snoc [OF False])
  then show ?thesis
    using False Clean_joinSlash_slash [OF False assms(1)] by (simp add: pathOf_def)
qed

lemma Join_pathOf:
  assumes "\<forall>n \<in> set ns. validName n" "validName f"
  shows "filepath_Join (pathOf ns) f = pathOf (ns @ [f])"
proof (cases "ns = []")
  case True
  have "strings_Split (''./'' @ f) (CHR ''/'') = [''.'', f]"
    using assms(2) Split_append_sep [of "CHR ''/''" "''.''" f]
    by (simp add: validName_def Split_no_sep)
  then show ?thesis
    using True assms(2)
    by (simp add: filepath_Join_def pathOf_def filepath_Clean_def cleanStep_def validName_def)
next
  case False
  have "filepath_Clean (joinSlash (ns @ [f])) = joinSlash (ns @ [f])"
    using assms by (intro Clean_joinSlash) auto
  moreover have "joinSlash ns \<noteq> []"
    using False assms(1) by (rule joinSlash_valid_nonempty)
  ultimately show ?thesis
    using False assms(2) by (simp add: filepath_Join_def pathOf_def joinSlash_snoc validName_def)
qed

subsection \<open>The scanner\<close>

text \<open>The scanner fails exactly when a line of the input, between two line feeds, has
  65536 bytes or more.\<close>

lemma scanFrom_error_iff:
  "CHR 0x0A \<notin> set cur \<Longrightarrow>
     (scanFrom cur s = Inl ErrTooLong) =
     (\<exists>l \<in> set (strings_Split (cur @ s) (CHR 0x0A)). MaxScanTokenSize \<le> length l)"
proof (induction s arbitrary: cur)
  case Nil
  then show ?case by (auto simp: Split_no_sep MaxScanTokenSize_def)
next
  case (Cons c cs)
  show ?case
  proof (cases "c = CHR 0x0A")
    case True
    have "(scanFrom [] cs = Inl ErrTooLong) =
        (\<exists>l \<in> set (strings_Split cs (CHR 0x0A)). MaxScanTokenSize \<le> length l)"
      using Cons.IH [of "[]"] by simp
    then show ?thesis
      using True Cons.prems by (auto simp: Split_append_sep split: sum.splits)
  next
    case False
    then show ?thesis
      using Cons.IH [of "cur @ [c]"] Cons.prems by simp
  qed
qed

lemma scanLines_ok_iff:
  "(\<exists>ls. scanLines content = Inr ls) =
     (\<forall>l \<in> set (strings_Split content (CHR 0x0A)). length l < MaxScanTokenSize)"
proof -
  have "(\<exists>ls. scanLines content = Inr ls) = (scanLines content \<noteq> Inl ErrTooLong)"
    by (cases "scanLines content") (auto intro: scanError.exhaust)
  then show ?thesis
    using scanFrom_error_iff [of "[]" content] by (auto simp: scanLines_def not_le)
qed

lemma scan_profile0:
  "scanLines profile0 =
     Inr [''mode: atomic'', ''a/b.go:1.2,3.4 3 1'', ''a/c.go:1.2,3.4 4 0'', ''x/y.go:5.1,6.2 2 5'']"
  by (simp add: profile0_def scanLines_def MaxScanTokenSize_def dropCR_def)

subsection \<open>The aggregation loop\<close>

lemma processLine_parseLine:
  "processLine ps line =
     (case parseLine line of None \<Rightarrow> ps | Some (pkg, n, k) \<Rightarrow> addStatements ps pkg n k)"
proof (cases "length (strings_Fields line) = 3")
  case True
  then obtain a b c where "strings_Fields line = [a, b, c]"
    by (auto simp: length3_conv)
  then show ?thesis
    by (simp add: processLine_def parseLine_def Let_def split: option.splits)
next
  case False
  then have "parseLine line = None"
    by (auto simp: parseLine_def split: list.splits)
  with False show ?thesis
    by (simp add: processLine_def Let_def)
qed

lemma parseLine_SomeD:
  assumes "parseLine line = Some (pkg, n, k)"
  shows "\<exists>filePart f2 f3 i. strings_Fields line = [filePart, f2, f3]
           \<and> strings_LastIndex filePart (CHR '':'') = Some i
           \<and> pkg = filepath_Dir (take i filePart)
           \<and> strconv_Atoi f2 = Some n \<and> strconv_Atoi f3 = Some k
           \<and> \<not> strings_HasPrefix line ''mode:''"
  using assms
  by (auto simp: parseLine_def split: if_splits list.splits option.splits)

lemma parseLine_key:
  assumes "parseLine line = Some (pkg, n, k)"
  shows "pkg = filepath_Dir (lineFilePath line)"
proof -
  obtain filePart f2 f3 i where h: "strings_Fields line = [filePart, f2, f3]"
      "strings_LastIndex filePart (CHR '':'') = Some i" "pkg = filepath_Dir (take i filePart)"
    using parseLine_SomeD [OF assms] by blast
  show ?thesis
    using h by (simp add: lineFilePath_def take_LastIndex)
qed

lemma map_of_addStatements:
  "map_of (addStatements ps pkg n k) p =
     (if p = pkg
      then Some \<lparr>TotalStatements = TotalStatements (statsOf ps pkg) + n,
                 CoveredStatements = CoveredStatements (statsOf ps pkg) + (if 0 < sint k then n else 0)\<rparr>
      else map_of ps p)"
  by (simp add: addStatements_def statsOf_def Let_def update_conv' split: option.splits)

lemma map_of_processLine:
  assumes "parseLine line = Some (pkg, n, k)"
  shows "map_of (processLine ps line) p =
     (if p = pkg
      then Some \<lparr>TotalStatements = TotalStatements (statsOf ps pkg) + n,
                 CoveredStatements = CoveredStatements (statsOf ps pkg) + (if 0 < sint k then n else 0)\<rparr>
      else map_of ps p)"
  using assms by (simp add: processLine_parseLine map_of_addStatements)

lemma packageLines_Nil: "packageLines [] pkg = []"
  by (simp add: packageLines_def map_filter_simps)

lemma packageLines_snoc:
  "packageLines (ls @ [l]) pkg =
     packageLines ls pkg @
       (case parseLine l of None \<Rightarrow> [] | Some (p, n, k) \<Rightarrow> if p = pkg then [(n, k)] else [])"
  by (simp add: packageLines_def map_filter_def split: option.splits)

lemma scanLoop_snoc: "scanLoop (ls @ [l]) = processLine (scanLoop ls) l"
  by (simp add: scanLoop_def)

lemma coverageTotals_scan:
  "scanLines content = Inr ls \<Longrightarrow> coverageTotals content = Inr (scanLoop ls)"
  by (simp add: coverageTotals_def)

text \<open>The entry of a package after the loop: none when no well-formed line belongs to
  the package, the two sums (in Go's integer arithmetic) otherwise.\<close>

lemma map_of_scanLoop:
  "map_of (scanLoop ls) pkg =
     (if packageLines ls pkg = [] then None
      else Some \<lparr>TotalStatements = sum_list (map fst (packageLines ls pkg)),
                 CoveredStatements =
                   sum_list (map fst (filter (\<lambda>(n, k). 0 < sint k) (packageLines ls pkg)))\<rparr>)"
proof (induction ls rule: rev_induct)
  case Nil
  show ?case by (simp add: scanLoop_def packageLines_Nil)
next
  case (snoc l ls)
  show ?case
  proof (cases "parseLine l")
    case None
    then show ?thesis
      using snoc
      by (simp add: scanLoop_snoc processLine_parseLine packageLines_snoc)
  next
    case (Some t)
    obtain p n k where t: "t = (p, n, k)" by (cases t) auto
    show ?thesis
      using snoc Some t
      by (auto simp: scanLoop_snoc processLine_parseLine packageLines_snoc
          map_of_addStatements statsOf_def)
  qed
qed

lemma distinct_addStatements:
  "distinct (map fst ps) \<Longrightarrow> distinct (map fst (addStatements ps pkg n k))"
  by (simp add: addStatements_def Let_def distinct_update)

lemma distinct_processLine:
  "distinct (map fst ps) \<Longrightarrow> distinct (map fst (processLine ps line))"
  by (simp add: processLine_parseLine distinct_addStatements split: option.splits)

lemma distinct_scanLoop: "distinct (map fst (scanLoop ls))"
proof (induction ls rule: rev_induct)
  case Nil
  show ?case by (simp add: scanLoop_def)
next
  case (snoc l ls)
  then show ?case by (simp add: scanLoop_snoc distinct_processLine)
qed

lemma length_scanLoop_two:
  assumes "parseLine l1 = Some (p1, n1, k1)" "parseLine l2 = Some (p2, n2, k2)"
  shows "(length (scanLoop [l1, l2]) = 1) = (p1 = p2)"
  using assms
  by (simp add: scanLoop_def processLine_parseLine addStatements_def Let_def)



subsection \<open>The totals of a package\<close>



subsection \<open>The package key of a line\<close>

text \<open>
  Claim C5. A well-formed line is attributed to the package key
  \<^verbatim>\<open>filepath.Dir\<close> of its file path, the text of the first field before its last colon:
  processing the line sets the entry of that key and leaves every other key as it was.
  For a file path made of directory names and a file name, the key is the path without
  its last element. Two well-formed lines, processed from the empty map, share one counter
  pair if and only if the directories of their file paths are equal.
\<close>

theorem package_key_is_directory:
  assumes "parseLine line = Some (pkg, n, k)"
  shows "pkg = filepath_Dir (lineFilePath line)
    \<and> map_of (processLine ps line) pkg =
        Some \<lparr>TotalStatements = TotalStatements (statsOf ps pkg) + n,
              CoveredStatements = CoveredStatements (statsOf ps pkg) + (if 0 < sint k then n else 0)\<rparr>
    \<and> (\<forall>p. p \<noteq> pkg \<longrightarrow> map_of (processLine ps line) p = map_of ps p)
    \<and> (\<forall>dirs f. (\<forall>d \<in> set dirs. validName d) \<and> CHR ''/'' \<notin> set f
           \<and> lineFilePath line = joinSlash (dirs @ [f]) \<longrightarrow> pkg = pathOf dirs)
    \<and> (\<forall>line' pkg' n' k'. parseLine line' = Some (pkg', n', k') \<longrightarrow>
          (length (scanLoop [line, line']) = 1) =
          (filepath_Dir (lineFilePath line) = filepath_Dir (lineFilePath line')))"
proof (intro conjI allI impI)
  show key: "pkg = filepath_Dir (lineFilePath line)"
    using assms by (rule parseLine_key)
  show "map_of (processLine ps line) pkg =
        Some \<lparr>TotalStatements = TotalStatements (statsOf ps pkg) + n,
              CoveredStatements = CoveredStatements (statsOf ps pkg) + (if 0 < sint k then n else 0)\<rparr>"
    by (simp add: map_of_processLine [OF assms])
  show "map_of (processLine ps line) p = map_of ps p" if "p \<noteq> pkg" for p
    using that by (simp add: map_of_processLine [OF assms])
  show "pkg = pathOf dirs"
    if "(\<forall>d \<in> set dirs. validName d) \<and> CHR ''/'' \<notin> set f \<and> lineFilePath line = joinSlash (dirs @ [f])"
    for dirs f
    using that key by (simp add: Dir_joinSlash)
  show "(length (scanLoop [line, line']) = 1) =
          (filepath_Dir (lineFilePath line) = filepath_Dir (lineFilePath line'))"
    if "parseLine line' = Some (pkg', n', k')" for line' pkg' n' k'
    using length_scanLoop_two [OF assms that] key parseLine_key [OF that] by simp
qed

theorem package_key_is_directory_witness:
  "parseLine ''github.com/u/pkg/b.go:1.2,3.4 3 1'' = Some (''github.com/u/pkg'', 3, 1)
   \<and> lineFilePath ''github.com/u/pkg/b.go:1.2,3.4 3 1'' = joinSlash ([''github.com'', ''u'', ''pkg''] @ [''b.go''])
   \<and> pathOf [''github.com'', ''u'', ''pkg''] = ''github.com/u/pkg''
   \<and> map_of (processLine [] ''github.com/u/pkg/b.go:1.2,3.4 3 1'') ''github.com/u/pkg''
        = Some \<lparr>TotalStatements = 3, CoveredStatements = 3\<rparr>
   \<and> map_of (processLine [] ''github.com/u/pkg/b.go:1.2,3.4 3 1'') ''github.com/u'' = None
   \<and> parseLine ''github.com/u/pkg/c.go:7.2,9.4 4 0'' = Some (''github.com/u/pkg'', 4, 0)
   \<and> length (scanLoop [''github.com/u/pkg/b.go:1.2,3.4 3 1'', ''github.com/u/pkg/c.go:7.2,9.4 4 0'']) = 1"
proof -
  have h: "parseLine ''github.com/u/pkg/b.go:1.2,3.4 3 1'' = Some (''github.com/u/pkg'', 3, 1)"
    by (simp add: parseLine_def eval_defs)
  have h2: "parseLine ''github.com/u/pkg/c.go:7.2,9.4 4 0'' = Some (''github.com/u/pkg'', 4, 0)"
    by (simp add: parseLine_def eval_defs)
  have p: "lineFilePath ''github.com/u/pkg/b.go:1.2,3.4 3 1'' = joinSlash ([''github.com'', ''u'', ''pkg''] @ [''b.go''])"
    by (simp add: lineFilePath_def eval_defs)
  have p2: "lineFilePath ''github.com/u/pkg/c.go:7.2,9.4 4 0'' = ''github.com/u/pkg/c.go''"
    by (simp add: lineFilePath_def eval_defs)
  have d: "filepath_Dir ''github.com/u/pkg/c.go'' = ''github.com/u/pkg''"
    by (simp add: eval_defs)
  note t = package_key_is_directory [OF h, of "[]"]
  have "map_of (processLine [] ''github.com/u/pkg/b.go:1.2,3.4 3 1'') ''github.com/u/pkg''
        = Some \<lparr>TotalStatements = 3, CoveredStatements = 3\<rparr>"
    using t [THEN conjunct2, THEN conjunct1] by (simp add: statsOf_def)
  moreover have "map_of (processLine [] ''github.com/u/pkg/b.go:1.2,3.4 3 1'') ''github.com/u'' = None"
    using t [THEN conjunct2, THEN conjunct2, THEN conjunct1, rule_format, of "''github.com/u''"] by simp
  moreover have "length (scanLoop [''github.com/u/pkg/b.go:1.2,3.4 3 1'', ''github.com/u/pkg/c.go:7.2,9.4 4 0'']) = 1"
    using t [THEN conjunct2, THEN conjunct2, THEN conjunct2, THEN conjunct2, rule_format, OF h2]
      t [THEN conjunct1] p2 d by simp
  moreover have "pathOf [''github.com'', ''u'', ''pkg''] = ''github.com/u/pkg''"
    by (simp add: pathOf_def)
  ultimately show ?thesis using h h2 p by simp
qed

subsection \<open>Lines that are skipped\<close>

text \<open>
  Claim C10, as stated: a line that starts with \<^verbatim>\<open>mode:\<close> never makes the function
  return an error. It fails for a line of 65536 bytes or more: the scanner stops with
  \<^verbatim>\<open>ErrTooLong\<close>, which \<^verbatim>\<open>displayCoverageStats\<close> returns (line 317).
\<close>

theorem long_mode_line_is_an_error:
  "strings_HasPrefix (''mode:'' @ replicate 65536 (CHR ''x'')) ''mode:''
   \<and> displayCoverageStats (Content (''mode:'' @ replicate 65536 (CHR ''x'')))
       = Inl (ScannerError ErrTooLong)"
proof -
  have "scanLines (''mode:'' @ replicate 65536 (CHR ''x'')) = Inl ErrTooLong"
    using scanFrom_error_iff [of "[]" "''mode:'' @ replicate 65536 (CHR ''x'')"]
    by (simp add: scanLines_def Split_no_sep MaxScanTokenSize_def)
  then show ?thesis
    by (simp add: displayCoverageStats_def coverageTotals_def strings_HasPrefix_def)
qed

text \<open>
  Claim C10, amended. In a profile the scanner reads to its end (every line shorter than
  65536 bytes, lemma \<open>scanLines_ok_iff\<close>), a line that starts with \<^verbatim>\<open>mode:\<close>, or does
  not consist of exactly three white-space separated fields, or whose first field has no
  colon, or whose second or third field is not a decimal integer, is skipped: the loop body
  leaves every counter as it was, the function returns no error, and its result is the
  one of the profile without the line.
\<close>

theorem malformed_line_skipped:
  assumes "strings_HasPrefix line ''mode:''
      \<or> length (strings_Fields line) \<noteq> 3
      \<or> CHR '':'' \<notin> set (strings_Fields line ! 0)
      \<or> \<not> isDecimalInteger (strings_Fields line ! 1)
      \<or> \<not> isDecimalInteger (strings_Fields line ! 2)"
  shows "processLine packageStats line = packageStats
    \<and> (\<forall>before after. scanLines content = Inr (before @ line # after) \<longrightarrow>
          coverageTotals content = Inr (scanLoop (before @ after))
          \<and> displayCoverageStats (Content content) = Inr (printSummary (scanLoop (before @ after))))"
proof -
  have skip: "processLine ps line = ps" for ps
    using assms
    by (auto simp: processLine_def Let_def LastIndex_None_iff [symmetric] Atoi_not_decimal
        split: option.splits)
  have "scanLoop (before @ line # after) = scanLoop (before @ after)" for before after
    using skip [of "scanLoop before"] by (simp add: scanLoop_def)
  then show ?thesis
    using skip by (simp add: displayCoverageStats_def coverageTotals_def)
qed

theorem malformed_line_skipped_witness:
  "strings_HasPrefix ''mode: atomic'' ''mode:''
   \<and> length (strings_Fields ''not a coverage line at all'') \<noteq> 3
   \<and> scanLines (''a/b.go:1.2,3.4 3 1'' @ [CHR 0x0A] @ ''not a coverage line at all'' @ [CHR 0x0A])
        = Inr ([''a/b.go:1.2,3.4 3 1''] @ ''not a coverage line at all'' # [])
   \<and> processLine [(''a'', \<lparr>TotalStatements = 3, CoveredStatements = 3\<rparr>)] ''mode: atomic''
        = [(''a'', \<lparr>TotalStatements = 3, CoveredStatements = 3\<rparr>)]
   \<and> coverageTotals (''a/b.go:1.2,3.4 3 1'' @ [CHR 0x0A] @ ''not a coverage line at all'' @ [CHR 0x0A])
        = Inr (scanLoop [''a/b.go:1.2,3.4 3 1''])"
proof -
  have m: "strings_HasPrefix ''mode: atomic'' ''mode:''"
    by (simp add: strings_HasPrefix_def)
  have g: "length (strings_Fields ''not a coverage line at all'') \<noteq> 3"
    by (simp add: eval_defs)
  have s: "scanLines (''a/b.go:1.2,3.4 3 1'' @ [CHR 0x0A] @ ''not a coverage line at all'' @ [CHR 0x0A])
        = Inr ([''a/b.go:1.2,3.4 3 1''] @ ''not a coverage line at all'' # [])"
    by (simp add: scanLines_def MaxScanTokenSize_def dropCR_def)
  have "processLine [(''a'', \<lparr>TotalStatements = 3, CoveredStatements = 3\<rparr>)] ''mode: atomic''
        = [(''a'', \<lparr>TotalStatements = 3, CoveredStatements = 3\<rparr>)]"
    using malformed_line_skipped [of "''mode: atomic''"] m by blast
  moreover have "coverageTotals (''a/b.go:1.2,3.4 3 1'' @ [CHR 0x0A] @ ''not a coverage line at all'' @ [CHR 0x0A])
        = Inr (scanLoop ([''a/b.go:1.2,3.4 3 1''] @ []))"
    using malformed_line_skipped [of "''not a coverage line at all''"] g s by blast
  ultimately show ?thesis using m g s by simp
qed

subsection \<open>The order of lines and the order of the summary\<close>

lemma sort_cong_set:
  fixes xs ys :: "string list"
  assumes "distinct xs" "distinct ys" "set xs = set ys"
  shows "sort xs = sort ys"
proof -
  have "sort xs = sorted_list_of_set (set xs)"
    using assms(1) by (simp add: sorted_list_of_set_sort_remdups distinct_remdups_id)
  also have "\<dots> = sorted_list_of_set (set ys)" using assms(3) by simp
  also have "\<dots> = sort ys"
    using assms(2) by (simp add: sorted_list_of_set_sort_remdups distinct_remdups_id)
  finally show ?thesis .
qed

lemma printSummary_cong:
  assumes "map_of ps = map_of ps'" "distinct (map fst ps)" "distinct (map fst ps')"
  shows "printSummary ps = printSummary ps'"
proof -
  have keys: "set (map fst ps) = set (map fst ps')"
    using assms(1) by (metis dom_map_of_conv_image_fst set_map)
  then have names: "pkgNamesOf ps = pkgNamesOf ps'"
    unfolding pkgNamesOf_def using assms(2,3) by (rule_tac sort_cong_set) auto
  have stats: "statsOf ps = statsOf ps'"
    using assms(1) by (simp add: statsOf_def fun_eq_iff)
  have "(ps = []) = (ps' = [])"
    using keys by (cases ps; cases ps') auto
  then show ?thesis
    by (simp add: printSummary_def names stats)
qed

lemma mset_map_filter_cong:
  assumes "mset xs = mset ys"
  shows "mset (List.map_filter f xs) = mset (List.map_filter f ys)"
proof -
  have "\<And>zs. mset (List.map_filter f zs) =
      image_mset (the \<circ> f) (filter_mset (\<lambda>x. f x \<noteq> None) (mset zs))"
    by (simp only: map_filter_def mset_map mset_filter)
  then show ?thesis using assms by simp
qed

lemma packageLines_mset:
  assumes "mset ls = mset ls'"
  shows "mset (packageLines ls pkg) = mset (packageLines ls' pkg)"
  unfolding packageLines_def using assms by (rule mset_map_filter_cong)

lemma sum_list_mset_cong:
  fixes xs ys :: "'a list" and f :: "'a \<Rightarrow> goint"
  assumes "mset xs = mset ys"
  shows "sum_list (map f xs) = sum_list (map f ys)"
proof -
  have "sum_list (map f xs) = sum_mset (image_mset f (mset xs))"
    by (simp flip: sum_mset_sum_list)
  also have "\<dots> = sum_mset (image_mset f (mset ys))" using assms by simp
  also have "\<dots> = sum_list (map f ys)" by (simp flip: sum_mset_sum_list)
  finally show ?thesis .
qed

lemma map_of_scanLoop_mset:
  assumes "mset ls = mset ls'"
  shows "map_of (scanLoop ls) = map_of (scanLoop ls')"
proof
  fix pkg
  note pl = packageLines_mset [OF assms, of pkg]
  have e: "(packageLines ls pkg = []) = (packageLines ls' pkg = [])"
    using pl by (metis mset_zero_iff)
  have t: "sum_list (map fst (packageLines ls pkg)) = sum_list (map fst (packageLines ls' pkg))"
    using pl by (rule sum_list_mset_cong)
  have c: "sum_list (map fst (filter (\<lambda>(n, k). 0 < sint k) (packageLines ls pkg)))
      = sum_list (map fst (filter (\<lambda>(n, k). 0 < sint k) (packageLines ls' pkg)))"
    by (rule sum_list_mset_cong) (simp only: mset_filter pl)
  show "map_of (scanLoop ls) pkg = map_of (scanLoop ls') pkg"
    by (simp only: map_of_scanLoop e t c)
qed

lemma pkgNamesOf_lookup:
  "pkg \<in> set (pkgNamesOf ps) \<Longrightarrow> \<exists>stats. map_of ps pkg = Some stats"
  by (simp add: pkgNamesOf_def) (metis domD dom_map_of_conv_image_fst set_map)

text \<open>
  Claim C8. Two profiles whose lines are the same up to their order give the same map from
  packages to counter pairs and the same result of \<^verbatim>\<open>displayCoverageStats\<close>. The names
  the table is printed from are the keys of the map, each once, in increasing order of
  the byte-wise lexicographic order of strings, and the table has one row per name in
  that order. The summary is the same for every list of entries with the same lookups: it
  does not depend on the order in which Go ranges over the map.
\<close>

theorem summary_is_deterministic:
  assumes "scanLines content = Inr lines" "scanLines content' = Inr lines'"
    and "mset lines = mset lines'"
  shows "coverageTotals content = Inr (scanLoop lines)
    \<and> coverageTotals content' = Inr (scanLoop lines')
    \<and> map_of (scanLoop lines) = map_of (scanLoop lines')
    \<and> sorted (pkgNamesOf (scanLoop lines))
    \<and> distinct (pkgNamesOf (scanLoop lines))
    \<and> set (pkgNamesOf (scanLoop lines)) = dom (map_of (scanLoop lines))
    \<and> summaryRows (printSummary (scanLoop lines)) =
        map (\<lambda>pkg. \<lparr>displayPkg = truncatePkg pkg, rowStats = statsOf (scanLoop lines) pkg\<rparr>)
          (pkgNamesOf (scanLoop lines))
    \<and> displayCoverageStats (Content content) = displayCoverageStats (Content content')
    \<and> (\<forall>ps. map_of ps = map_of (scanLoop lines) \<and> distinct (map fst ps) \<longrightarrow>
          printSummary ps = printSummary (scanLoop lines))"
proof -
  note d = distinct_scanLoop [of lines] distinct_scanLoop [of lines']
  note m = map_of_scanLoop_mset [OF assms(3)]
  have names: "sorted (pkgNamesOf (scanLoop lines))" "distinct (pkgNamesOf (scanLoop lines))"
      "set (pkgNamesOf (scanLoop lines)) = dom (map_of (scanLoop lines))"
    using d(1) by (simp_all add: pkgNamesOf_def dom_map_of_conv_image_fst)
  have rows: "summaryRows (printSummary (scanLoop lines)) =
        map (\<lambda>pkg. \<lparr>displayPkg = truncatePkg pkg, rowStats = statsOf (scanLoop lines) pkg\<rparr>)
          (pkgNamesOf (scanLoop lines))"
    by (simp add: summaryRows_def printSummary_def Let_def pkgNamesOf_def)
  have same: "printSummary (scanLoop lines) = printSummary (scanLoop lines')"
    using m d by (rule printSummary_cong)
  have indep: "printSummary ps = printSummary (scanLoop lines)"
    if "map_of ps = map_of (scanLoop lines) \<and> distinct (map fst ps)" for ps
    using that d(1) by (intro printSummary_cong) auto
  show ?thesis
    using assms(1,2) m names rows same indep
    by (simp add: coverageTotals_scan displayCoverageStats_def)
qed

lemma scan_profile1:
  "scanLines profile1 =
     Inr [''x/y.go:5.1,6.2 2 5'', ''a/c.go:1.2,3.4 4 0'', ''mode: atomic'', ''a/b.go:1.2,3.4 3 1'']"
  by (simp add: profile1_def scanLines_def MaxScanTokenSize_def dropCR_def)

lemma scanLoop_profile0:
  "scanLoop [''mode: atomic'', ''a/b.go:1.2,3.4 3 1'', ''a/c.go:1.2,3.4 4 0'', ''x/y.go:5.1,6.2 2 5'']
    = [(''a'', \<lparr>TotalStatements = 7, CoveredStatements = 3\<rparr>),
       (''x'', \<lparr>TotalStatements = 2, CoveredStatements = 2\<rparr>)]"
  by (simp add: scanLoop_def processLine_def addStatements_def eval_defs)

lemma scanLoop_profile1:
  "scanLoop [''x/y.go:5.1,6.2 2 5'', ''a/c.go:1.2,3.4 4 0'', ''mode: atomic'', ''a/b.go:1.2,3.4 3 1'']
    = [(''x'', \<lparr>TotalStatements = 2, CoveredStatements = 2\<rparr>),
       (''a'', \<lparr>TotalStatements = 7, CoveredStatements = 3\<rparr>)]"
  by (simp add: scanLoop_def processLine_def addStatements_def eval_defs)

theorem summary_is_deterministic_witness:
  "mset [''mode: atomic'', ''a/b.go:1.2,3.4 3 1'', ''a/c.go:1.2,3.4 4 0'', ''x/y.go:5.1,6.2 2 5'']
     = mset [''x/y.go:5.1,6.2 2 5'', ''a/c.go:1.2,3.4 4 0'', ''mode: atomic'', ''a/b.go:1.2,3.4 3 1'']
   \<and> coverageTotals profile0 = Inr [(''a'', \<lparr>TotalStatements = 7, CoveredStatements = 3\<rparr>),
       (''x'', \<lparr>TotalStatements = 2, CoveredStatements = 2\<rparr>)]
   \<and> coverageTotals profile1 = Inr [(''x'', \<lparr>TotalStatements = 2, CoveredStatements = 2\<rparr>),
       (''a'', \<lparr>TotalStatements = 7, CoveredStatements = 3\<rparr>)]
   \<and> displayCoverageStats (Content profile1) = displayCoverageStats (Content profile0)
   \<and> displayCoverageStats (Content profile0) =
       Inr (Table [\<lparr>displayPkg = ''a'', rowStats = \<lparr>TotalStatements = 7, CoveredStatements = 3\<rparr>\<rparr>,
                   \<lparr>displayPkg = ''x'', rowStats = \<lparr>TotalStatements = 2, CoveredStatements = 2\<rparr>\<rparr>] 5 9)"
proof -
  have p: "mset [''mode: atomic'', ''a/b.go:1.2,3.4 3 1'', ''a/c.go:1.2,3.4 4 0'', ''x/y.go:5.1,6.2 2 5'']
     = mset [''x/y.go:5.1,6.2 2 5'', ''a/c.go:1.2,3.4 4 0'', ''mode: atomic'', ''a/b.go:1.2,3.4 3 1'']"
    by (simp add: add_mset_commute)
  note t = summary_is_deterministic [OF scan_profile0 scan_profile1 p]
  have "displayCoverageStats (Content profile1) = displayCoverageStats (Content profile0)"
    using t by simp
  moreover have "coverageTotals profile0 = Inr [(''a'', \<lparr>TotalStatements = 7, CoveredStatements = 3\<rparr>),
       (''x'', \<lparr>TotalStatements = 2, CoveredStatements = 2\<rparr>)]"
    using t by (simp add: scanLoop_profile0)
  moreover have "coverageTotals profile1 = Inr [(''x'', \<lparr>TotalStatements = 2, CoveredStatements = 2\<rparr>),
       (''a'', \<lparr>TotalStatements = 7, CoveredStatements = 3\<rparr>)]"
    using t by (simp add: scanLoop_profile1)
  moreover have "displayCoverageStats (Content profile0) =
       Inr (Table [\<lparr>displayPkg = ''a'', rowStats = \<lparr>TotalStatements = 7, CoveredStatements = 3\<rparr>\<rparr>,
                   \<lparr>displayPkg = ''x'', rowStats = \<lparr>TotalStatements = 2, CoveredStatements = 2\<rparr>\<rparr>] 5 9)"
    by (simp add: displayCoverageStats_def coverageTotals_scan [OF scan_profile0] scanLoop_profile0
        printSummary_def pkgNamesOf_def statsOf_def truncatePkg_def)
  ultimately show ?thesis using p by simp
qed

subsection \<open>The ordering of the two counters\<close>

lemma sint_add_nonneg:
  fixes a b :: goint
  assumes "0 \<le> sint a" "0 \<le> sint b" "sint a + sint b < 2 ^ 63"
  shows "sint (a + b) = sint a + sint b"
  using assms by (simp add: sint_word_ariths signed_take_bit_int_eq_self)

lemma sint_sum_list_nonneg:
  fixes ws :: "goint list"
  assumes "\<forall>w \<in> set ws. 0 \<le> sint w" "sum_list (map sint ws) < 2 ^ 63"
  shows "sint (sum_list ws) = sum_list (map sint ws)"
  using assms
proof (induction ws)
  case Nil
  then show ?case by simp
next
  case (Cons w ws)
  have nn: "0 \<le> sum_list (map sint ws)"
    using Cons.prems(1) by (intro sum_list_nonneg) auto
  then have "sint (sum_list ws) = sum_list (map sint ws)"
    using Cons by auto
  then show ?case
    using Cons.prems nn by (simp add: sint_add_nonneg)
qed

lemma sum_list_filter_le:
  fixes f :: "'a \<Rightarrow> int"
  assumes "\<forall>x \<in> set xs. 0 \<le> f x"
  shows "sum_list (map f (filter P xs)) \<le> sum_list (map f xs)"
  using assms by (induction xs) auto

lemma countersOrdered_sums:
  fixes pl :: "(goint \<times> goint) list"
  assumes nn: "\<forall>x \<in> set pl. 0 \<le> sint (fst x)"
    and fit: "sum_list (map (sint \<circ> fst) pl) < 2 ^ 63"
  shows "countersOrdered \<lparr>TotalStatements = sum_list (map fst pl),
      CoveredStatements = sum_list (map fst (filter (\<lambda>(n, k). 0 < sint k) pl))\<rparr>"
proof -
  let ?P = "\<lambda>(n, k). 0 < sint k"
  have nn': "\<forall>x \<in> set pl. 0 \<le> (sint \<circ> fst) x" using nn by auto
  have le: "sum_list (map (sint \<circ> fst) (filter ?P pl)) \<le> sum_list (map (sint \<circ> fst) pl)"
    using nn' by (rule sum_list_filter_le)
  have t: "sint (sum_list (map fst pl)) = sum_list (map (sint \<circ> fst) pl)"
    using sint_sum_list_nonneg [of "map fst pl"] nn fit by simp
  have c: "sint (sum_list (map fst (filter ?P pl))) = sum_list (map (sint \<circ> fst) (filter ?P pl))"
    using sint_sum_list_nonneg [of "map fst (filter ?P pl)"] nn fit le by simp
  have "0 \<le> sum_list (map (sint \<circ> fst) (filter ?P pl))"
    using nn by (intro sum_list_nonneg) auto
  then show ?thesis
    using t c le by (simp add: countersOrdered_def)
qed

lemma countersOrdered_step:
  assumes "countersOrdered st" "0 \<le> sint n" "sint (TotalStatements st) + sint n < 2 ^ 63"
  shows "countersOrdered \<lparr>TotalStatements = TotalStatements st + n,
      CoveredStatements = CoveredStatements st + (if 0 < sint k then n else 0)\<rparr>"
proof -
  have "sint (TotalStatements st + n) = sint (TotalStatements st) + sint n"
    using assms by (intro sint_add_nonneg) (auto simp: countersOrdered_def)
  moreover have "sint (CoveredStatements st + n) = sint (CoveredStatements st) + sint n"
    using assms by (intro sint_add_nonneg) (auto simp: countersOrdered_def)
  ultimately show ?thesis
    using assms by (auto simp: countersOrdered_def)
qed

lemma countersOrdered_zero: "countersOrdered \<lparr>TotalStatements = 0, CoveredStatements = 0\<rparr>"
  by (simp add: countersOrdered_def)

text \<open>
  Claim C9, amended. When every statement count parsed is non-negative and, for every
  package, the exact sum of its statement counts is below \<open>2 ^ 63\<close>, every counter pair
  after the loop satisfies \<open>0 \<le> CoveredStatements \<le> TotalStatements\<close>. Processing one
  line keeps this ordering of every pair when the line's statement count is non-negative
  and adding it to the \<open>TotalStatements\<close> of its package does not pass \<open>2 ^ 63 - 1\<close>.
\<close>

theorem counters_ordered_without_overflow:
  "(scanLines content = Inr lines
      \<and> (\<forall>pkg. \<forall>x \<in> set (packageLines lines pkg). 0 \<le> sint (fst x))
      \<and> (\<forall>pkg. sum_list (map (sint \<circ> fst) (packageLines lines pkg)) < 2 ^ 63)
     \<longrightarrow> coverageTotals content = Inr (scanLoop lines)
        \<and> (\<forall>pkg stats. map_of (scanLoop lines) pkg = Some stats \<longrightarrow> countersOrdered stats))
   \<and> ((\<forall>pkg stats. map_of packageStats pkg = Some stats \<longrightarrow> countersOrdered stats)
      \<and> (\<forall>pkg n k. parseLine line = Some (pkg, n, k) \<longrightarrow>
            0 \<le> sint n \<and> sint (TotalStatements (statsOf packageStats pkg)) + sint n < 2 ^ 63)
     \<longrightarrow> (\<forall>pkg stats. map_of (processLine packageStats line) pkg = Some stats \<longrightarrow>
            countersOrdered stats))"
proof (intro conjI impI allI)
  assume h: "scanLines content = Inr lines
      \<and> (\<forall>pkg. \<forall>x \<in> set (packageLines lines pkg). 0 \<le> sint (fst x))
      \<and> (\<forall>pkg. sum_list (map (sint \<circ> fst) (packageLines lines pkg)) < 2 ^ 63)"
  then show "coverageTotals content = Inr (scanLoop lines)"
    by (simp add: coverageTotals_scan)
  fix pkg stats
  assume "map_of (scanLoop lines) pkg = Some stats"
  then have "stats = \<lparr>TotalStatements = sum_list (map fst (packageLines lines pkg)),
      CoveredStatements = sum_list (map fst (filter (\<lambda>(n, k). 0 < sint k) (packageLines lines pkg)))\<rparr>"
    by (simp add: map_of_scanLoop split: if_splits)
  then show "countersOrdered stats"
    using h countersOrdered_sums [of "packageLines lines pkg"] by simp
next
  fix pkg stats
  assume h: "(\<forall>pkg stats. map_of packageStats pkg = Some stats \<longrightarrow> countersOrdered stats)
      \<and> (\<forall>pkg n k. parseLine line = Some (pkg, n, k) \<longrightarrow>
            0 \<le> sint n \<and> sint (TotalStatements (statsOf packageStats pkg)) + sint n < 2 ^ 63)"
    and s: "map_of (processLine packageStats line) pkg = Some stats"
  show "countersOrdered stats"
  proof (cases "parseLine line")
    case None
    then show ?thesis using h s by (simp add: processLine_parseLine)
  next
    case (Some t)
    obtain p n k where t: "parseLine line = Some (p, n, k)" using Some by (cases t) auto
    show ?thesis
    proof (cases "pkg = p")
      case False
      then show ?thesis using h s by (simp add: map_of_processLine [OF t])
    next
      case True
      have "countersOrdered (statsOf packageStats p)"
        using h by (auto simp: statsOf_def countersOrdered_zero split: option.splits)
      then have "countersOrdered \<lparr>TotalStatements = TotalStatements (statsOf packageStats p) + n,
          CoveredStatements = CoveredStatements (statsOf packageStats p) + (if 0 < sint k then n else 0)\<rparr>"
        using h t by (intro countersOrdered_step) auto
      then show ?thesis using s True by (simp add: map_of_processLine [OF t])
    qed
  qed
qed

text \<open>
  Claim C9, as stated, fails where Go's addition wraps: two lines of one package, with the
  non-negative statement counts 9223372036854775807 and 1, leave
  \<open>TotalStatements = - 9223372036854775808\<close>, below \<open>CoveredStatements\<close>.
\<close>

theorem counters_overflow:
  "coverageTotals (''a/b.go:1.1,2.2 9223372036854775807 1'' @ [CHR 0x0A] @ ''a/b.go:3.1,4.2 1 0'' @ [CHR 0x0A])
     = Inr [(''a'', \<lparr>TotalStatements = 9223372036854775808, CoveredStatements = 9223372036854775807\<rparr>)]
   \<and> parseLine ''a/b.go:1.1,2.2 9223372036854775807 1'' = Some (''a'', 9223372036854775807, 1)
   \<and> parseLine ''a/b.go:3.1,4.2 1 0'' = Some (''a'', 1, 0)
   \<and> sint (9223372036854775807 :: goint) = 9223372036854775807
   \<and> sint (1 :: goint) = 1
   \<and> sint (9223372036854775808 :: goint) = - 9223372036854775808
   \<and> \<not> countersOrdered \<lparr>TotalStatements = 9223372036854775808, CoveredStatements = 9223372036854775807\<rparr>"
  by (simp add: coverageTotals_def scanLines_def MaxScanTokenSize_def dropCR_def scanLoop_def
      processLine_def addStatements_def parseLine_def eval_defs countersOrdered_def)


lemma packageLines_profile0:
  "packageLines [''mode: atomic'', ''a/b.go:1.2,3.4 3 1'', ''a/c.go:1.2,3.4 4 0'', ''x/y.go:5.1,6.2 2 5''] pkg
     = (if pkg = ''a'' then [(3, 1), (4, 0)] else if pkg = ''x'' then [(2, 5)] else [])"
  by (simp add: packageLines_def parseLine_def eval_defs map_filter_simps)

theorem counters_ordered_without_overflow_witness:
  "scanLines profile0 =
     Inr [''mode: atomic'', ''a/b.go:1.2,3.4 3 1'', ''a/c.go:1.2,3.4 4 0'', ''x/y.go:5.1,6.2 2 5'']
   \<and> coverageTotals profile0 =
       Inr [(''a'', \<lparr>TotalStatements = 7, CoveredStatements = 3\<rparr>),
            (''x'', \<lparr>TotalStatements = 2, CoveredStatements = 2\<rparr>)]
   \<and> countersOrdered \<lparr>TotalStatements = 7, CoveredStatements = 3\<rparr>
   \<and> countersOrdered \<lparr>TotalStatements = 2, CoveredStatements = 2\<rparr>
   \<and> parseLine ''a/c.go:1.2,3.4 4 0'' = Some (''a'', 4, 0)
   \<and> processLine [(''a'', \<lparr>TotalStatements = 3, CoveredStatements = 3\<rparr>)] ''a/c.go:1.2,3.4 4 0''
       = [(''a'', \<lparr>TotalStatements = 7, CoveredStatements = 3\<rparr>)]"
proof -
  let ?ls = "[''mode: atomic'', ''a/b.go:1.2,3.4 3 1'', ''a/c.go:1.2,3.4 4 0'', ''x/y.go:5.1,6.2 2 5'']"
  let ?ps = "[(''a'', \<lparr>TotalStatements = 3, CoveredStatements = 3\<rparr>)]"
  have loop: "scanLoop ?ls = [(''a'', \<lparr>TotalStatements = 7, CoveredStatements = 3\<rparr>),
            (''x'', \<lparr>TotalStatements = 2, CoveredStatements = 2\<rparr>)]"
    by (simp add: scanLoop_def processLine_def addStatements_def eval_defs)
  have nn: "\<forall>pkg. \<forall>x \<in> set (packageLines ?ls pkg). 0 \<le> sint (fst x)"
    by (simp add: packageLines_profile0)
  have fit: "\<forall>pkg. sum_list (map (sint \<circ> fst) (packageLines ?ls pkg)) < 2 ^ 63"
    by (simp add: packageLines_profile0)
  have pl: "parseLine ''a/c.go:1.2,3.4 4 0'' = Some (''a'', 4, 0)"
    by (simp add: parseLine_def eval_defs)
  have step: "processLine ?ps ''a/c.go:1.2,3.4 4 0''
       = [(''a'', \<lparr>TotalStatements = 7, CoveredStatements = 3\<rparr>)]"
    by (simp add: processLine_def addStatements_def eval_defs)
  have inv0: "\<forall>pkg stats. map_of ?ps pkg = Some stats \<longrightarrow> countersOrdered stats"
    by (simp add: countersOrdered_def)
  have ok: "\<forall>pkg n k. parseLine ''a/c.go:1.2,3.4 4 0'' = Some (pkg, n, k) \<longrightarrow>
            0 \<le> sint n \<and> sint (TotalStatements (statsOf ?ps pkg)) + sint n < 2 ^ 63"
    by (simp add: pl statsOf_def)
  note t = counters_ordered_without_overflow [of profile0 ?ls ?ps "''a/c.go:1.2,3.4 4 0''"]
  have a: "\<forall>pkg stats. map_of (scanLoop ?ls) pkg = Some stats \<longrightarrow> countersOrdered stats"
    using t scan_profile0 nn fit by blast
  have b: "\<forall>pkg stats. map_of (processLine ?ps ''a/c.go:1.2,3.4 4 0'') pkg = Some stats \<longrightarrow>
            countersOrdered stats"
    using t inv0 ok by blast
  have "countersOrdered \<lparr>TotalStatements = 7, CoveredStatements = 3\<rparr>"
    using b [rule_format, of "''a''"] by (simp add: step)
  moreover have "countersOrdered \<lparr>TotalStatements = 2, CoveredStatements = 2\<rparr>"
    using a [rule_format, of "''x''"] by (simp add: loop)
  ultimately show ?thesis
    using scan_profile0 loop pl step by (simp add: coverageTotals_def)
qed

subsection \<open>Flag parsing\<close>


lemma addPatterns_eq: "addPatterns v ps = ps @ patternsOfValue v"
proof -
  have "foldl (\<lambda>acc p. let p' = strings_TrimSpace p in if p' \<noteq> [] then acc @ [p'] else acc) ps xs
      = ps @ filter (\<lambda>p. p \<noteq> []) (map strings_TrimSpace xs)" for xs
    by (induction xs arbitrary: ps) (auto simp: Let_def)
  then show ?thesis by (simp add: addPatterns_def patternsOfValue_def)
qed

lemma detail_not_ignore: "isDetailFlag arg \<Longrightarrow> \<not> isIgnoreFlag arg \<and> ignoreEqValue arg = None"
  by (auto simp: isDetailFlag_def isIgnoreFlag_def ignoreEqValue_def strings_HasPrefix_def)

lemma ignoreEqValue_code:
  "ignoreEqValue arg = (if hasIgnorePrefix arg then Some (ignorePrefixValue arg) else None)"
  by (simp add: ignoreEqValue_def hasIgnorePrefix_def ignorePrefixValue_def eval_nat_numeral)

lemma ignore_not_prefix: "isIgnoreFlag arg \<Longrightarrow> \<not> hasIgnorePrefix arg"
  by (auto simp: isIgnoreFlag_def hasIgnorePrefix_def strings_HasPrefix_def)

lemma parseFlagsLoop_eq:
  "parseFlagsLoop args g acc =
     (acc @ passThrough args,
      g\<lparr>verbose := verbose g \<or> detailSeen args,
        ignorePatterns := ignorePatterns g @ concat (map patternsOfValue (ignoreValues args))\<rparr>)"
proof (induction args g acc rule: parseFlagsLoop.induct)
  case (1 g goTestArgs)
  show ?case by simp
next
  case (2 arg rest g goTestArgs)
  show ?case
  proof (cases rest)
    case Nil
    then show ?thesis
      using detail_not_ignore [of arg] ignore_not_prefix [of arg]
      by (auto simp: ignoreEqValue_code addPatterns_eq)
  next
    case (Cons v rest')
    consider (d) "isDetailFlag arg"
      | (i) "\<not> isDetailFlag arg" "isIgnoreFlag arg"
      | (e) "\<not> isDetailFlag arg" "\<not> isIgnoreFlag arg" "hasIgnorePrefix arg"
      | (p) "\<not> isDetailFlag arg" "\<not> isIgnoreFlag arg" "\<not> hasIgnorePrefix arg"
      by blast
    then show ?thesis
    proof cases
      case d
      then show ?thesis
        using "2.IH"(1) Cons detail_not_ignore [of arg] by simp
    next
      case i
      then show ?thesis
        using "2.IH"(2) [OF i(1) i(2) Cons] Cons by (simp add: addPatterns_eq)
    next
      case e
      then show ?thesis
        using "2.IH"(3) Cons by (simp add: addPatterns_eq ignoreEqValue_code)
    next
      case p
      then show ?thesis
        using "2.IH"(4) Cons by (simp add: ignoreEqValue_code)
    qed
  qed
qed

lemma passThrough_filter:
  "\<forall>a \<in> set args. \<not> isIgnoreFlag a \<Longrightarrow>
     passThrough args = filter (\<lambda>a. \<not> isDetailFlag a \<and> ignoreEqValue a = None) args"
  by (induction args rule: passThrough.induct) auto

lemma passThrough_subseq: "subseq (passThrough args) args"
  by (induction args rule: passThrough.induct) (auto intro: subseq_Cons')


text \<open>
  Claim C7. \<^verbatim>\<open>parseFlags\<close> appends to \<^verbatim>\<open>ignorePatterns\<close>, for each ignore flag in order
  (two-argument form and \<^verbatim>\<open>=\<close> form), the pieces of its value between commas, trimmed of
  white space, without the empty ones. It returns, unchanged and in their order, the
  arguments that are neither a flag of the tool nor the value of a two-argument ignore
  flag: a subsequence of the arguments, and, when no two-argument ignore flag occurs,
  exactly the arguments that are not flags of the tool.
\<close>

theorem parseFlags_patterns_and_passthrough:
  "parseFlags g args =
     (passThrough args,
      g\<lparr>verbose := verbose g \<or> detailSeen args,
        ignorePatterns := ignorePatterns g @ concat (map patternsOfValue (ignoreValues args))\<rparr>)
   \<and> subseq (fst (parseFlags g args)) args
   \<and> ((\<forall>a \<in> set args. \<not> isIgnoreFlag a) \<longrightarrow>
        fst (parseFlags g args) =
          filter (\<lambda>a. \<not> isDetailFlag a \<and> ignoreEqValue a = None) args)"
  by (simp add: parseFlags_def parseFlagsLoop_eq passThrough_subseq passThrough_filter)

lemma patternsOfValue_ex1: "patternsOfValue ''example, pb ,,'' = [''example'', ''pb'']"
  by (simp add: patternsOfValue_def strings_TrimSpace_def lastSpaceWidth_def spaceWidth_def asciiSpace_def)

lemma patternsOfValue_ex2: "patternsOfValue ''cmd,testdata'' = [''cmd'', ''testdata'']"
  by (simp add: patternsOfValue_def strings_TrimSpace_def lastSpaceWidth_def spaceWidth_def asciiSpace_def)

theorem parseFlags_patterns_and_passthrough_witness:
  "parseFlags \<lparr>verbose = False, ignorePatterns = []\<rparr>
     [''-d'', ''-i'', ''example, pb ,,'', ''-v'', ''--ignore=cmd,testdata'', ''-run'', ''TestFoo'', ''-i'']
   = ([''-v'', ''-run'', ''TestFoo''],
      \<lparr>verbose = True, ignorePatterns = [''example'', ''pb'', ''cmd'', ''testdata'']\<rparr>)
   \<and> fst (parseFlags \<lparr>verbose = False, ignorePatterns = []\<rparr> [''-d'', ''-v'', ''-i=x'', ''-race''])
       = [''-v'', ''-race'']
   \<and> \<not> isIgnoreFlag ''-d'' \<and> \<not> isIgnoreFlag ''-v'' \<and> \<not> isIgnoreFlag ''-i=x'' \<and> \<not> isIgnoreFlag ''-race''"
proof -
  let ?g = "\<lparr>verbose = False, ignorePatterns = []\<rparr>"
  let ?args = "[''-d'', ''-i'', ''example, pb ,,'', ''-v'', ''--ignore=cmd,testdata'', ''-run'', ''TestFoo'', ''-i'']"
  have flags: "\<not> isIgnoreFlag ''-d''" "\<not> isIgnoreFlag ''-v''" "\<not> isIgnoreFlag ''-i=x''" "\<not> isIgnoreFlag ''-race''"
    by (simp_all add: isIgnoreFlag_def)
  have "parseFlags ?g ?args = ([''-v'', ''-run'', ''TestFoo''],
      \<lparr>verbose = True, ignorePatterns = [''example'', ''pb'', ''cmd'', ''testdata'']\<rparr>)"
    using parseFlags_patterns_and_passthrough [of ?g ?args, THEN conjunct1]
    by (simp add: isDetailFlag_def isIgnoreFlag_def ignoreEqValue_def strings_HasPrefix_def
        patternsOfValue_ex1 patternsOfValue_ex2)
  moreover have "fst (parseFlags ?g [''-d'', ''-v'', ''-i=x'', ''-race'']) = [''-v'', ''-race'']"
    using parseFlags_patterns_and_passthrough [of ?g "[''-d'', ''-v'', ''-i=x'', ''-race'']",
        THEN conjunct2, THEN conjunct2] flags
    by (simp add: isDetailFlag_def ignoreEqValue_def strings_HasPrefix_def)
  ultimately show ?thesis using flags by simp
qed

subsection \<open>Package discovery\<close>

lemma nodeAt_Nil: "nodeAt t [] x = (x = t)"
  by (subst nodeAt.simps) auto

lemma nodeAt_Cons:
  "nodeAt t (n # ns) x = (\<exists>entries c. t = Dir entries \<and> (n, c) \<in> set entries \<and> nodeAt c ns x)"
  by (subst nodeAt.simps) auto

lemma all_le_Suc_take:
  "(\<forall>k \<le> Suc m. P (take k (n # ns))) = (P [] \<and> (\<forall>k \<le> m. P (n # take k ns)))"
proof
  assume h: "\<forall>k \<le> Suc m. P (take k (n # ns))"
  have "P []" using h [rule_format, of 0] by simp
  moreover have "P (n # take k ns)" if "k \<le> m" for k
    using h [rule_format, of "Suc k"] that by simp
  ultimately show "P [] \<and> (\<forall>k \<le> m. P (n # take k ns))" by blast
next
  assume h: "P [] \<and> (\<forall>k \<le> m. P (n # take k ns))"
  show "\<forall>k \<le> Suc m. P (take k (n # ns))"
  proof (intro allI impI)
    fix k assume "k \<le> Suc m"
    then show "P (take k (n # ns))"
      using h by (cases k) auto
  qed
qed

lemma goDirsBelow_nondir:
  assumes "\<forall>es. node \<noteq> Dir es"
  shows "goDirsBelow ign pre node = {}"
proof -
  have "\<not> nodeAt node ns (Dir es)" for ns es
    using assms by (cases ns) (auto simp: nodeAt_Nil nodeAt_Cons)
  then show ?thesis by (simp add: goDirsBelow_def)
qed

lemma goDirsBelow_Dir:
  "goDirsBelow ign pre (Dir entries) =
     (if skippedAt ign pre then {}
      else (if hasGoFile entries then {pre} else {})
           \<union> (\<Union>e \<in> set entries. goDirsBelow ign (pre @ [fst e]) (snd e)))"
proof -
  let ?Q = "\<lambda>ns. \<exists>es. nodeAt (Dir entries) ns (Dir es) \<and> hasGoFile es
        \<and> (\<forall>k \<le> length ns. \<not> skippedAt ign (pre @ take k ns))"
  have nil: "?Q [] = (hasGoFile entries \<and> \<not> skippedAt ign pre)"
    by (auto simp: nodeAt_Nil)
  have cons: "?Q (n # ns) = (\<not> skippedAt ign pre \<and> (\<exists>c. (n, c) \<in> set entries \<and>
      (\<exists>es. nodeAt c ns (Dir es) \<and> hasGoFile es
         \<and> (\<forall>k \<le> length ns. \<not> skippedAt ign ((pre @ [n]) @ take k ns)))))" for n ns
    using all_le_Suc_take [of "length ns" "\<lambda>xs. \<not> skippedAt ign (pre @ xs)" n ns]
    by (auto simp: nodeAt_Cons)
  have "goDirsBelow ign pre (Dir entries) = {pre @ ns | ns. ?Q ns}"
    by (simp add: goDirsBelow_def)
  also have "\<dots> = {pre @ ns | ns. ns = [] \<and> ?Q ns} \<union> {pre @ ns | ns. ns \<noteq> [] \<and> ?Q ns}"
    by blast
  also have "{pre @ ns | ns. ns = [] \<and> ?Q ns} = (if hasGoFile entries \<and> \<not> skippedAt ign pre then {pre} else {})"
    using nil by auto
  also have "{pre @ ns | ns. ns \<noteq> [] \<and> ?Q ns} =
      (if skippedAt ign pre then {} else (\<Union>e \<in> set entries. goDirsBelow ign (pre @ [fst e]) (snd e)))"
  proof (cases "skippedAt ign pre")
    case True
    have "\<not> ?Q ns" if "ns \<noteq> []" for ns
      using that True cons by (cases ns) auto
    then show ?thesis using True by auto
  next
    case False
    have "{pre @ ns | ns. ns \<noteq> [] \<and> ?Q ns} = (\<Union>e \<in> set entries. goDirsBelow ign (pre @ [fst e]) (snd e))"
      (is "?L = ?R")
    proof (intro set_eqI iffI)
      fix p assume "p \<in> ?L"
      then obtain ns where p: "p = pre @ ns" "ns \<noteq> []" "?Q ns" by blast
      then obtain n ns' where ns: "ns = n # ns'" by (cases ns) auto
      then obtain c es where c: "(n, c) \<in> set entries" "nodeAt c ns' (Dir es)" "hasGoFile es"
          "\<forall>k \<le> length ns'. \<not> skippedAt ign ((pre @ [n]) @ take k ns')"
        using p(3) cons [of n ns'] by blast
      then have "(pre @ [n]) @ ns' \<in> goDirsBelow ign (pre @ [n]) c"
        unfolding goDirsBelow_def by blast
      then show "p \<in> ?R"
        using c(1) p(1) ns by force
    next
      fix p assume "p \<in> ?R"
      then obtain n c where e: "(n, c) \<in> set entries" "p \<in> goDirsBelow ign (pre @ [n]) c"
        by force
      then obtain ns' es where ns': "p = (pre @ [n]) @ ns'" "nodeAt c ns' (Dir es)" "hasGoFile es"
          "\<forall>k \<le> length ns'. \<not> skippedAt ign ((pre @ [n]) @ take k ns')"
        unfolding goDirsBelow_def by blast
      then have "?Q (n # ns')"
        using cons [of n ns'] False e(1) by blast
      then show "p \<in> ?L"
        using ns'(1) by (intro CollectI exI [of _ "n # ns'"]) simp
    qed
    then show ?thesis using False by simp
  qed
  finally show ?thesis by auto
qed

lemma HasSuffix_iff_suffix: "strings_HasSuffix s suf = suffix suf s"
  by (auto simp: strings_HasSuffix_def suffix_def)
     (metis append_take_drop_id)

lemma HasSuffix_go_path:
  "strings_HasSuffix (a @ ''/'' @ f) ''.go'' = strings_HasSuffix f ''.go''"
proof -
  have "\<not> (\<exists>xs. ''.go'' = xs @ f \<and> xs \<noteq> [] \<and> suffix xs (a @ ''/''))"
  proof
    assume "\<exists>xs. ''.go'' = xs @ f \<and> xs \<noteq> [] \<and> suffix xs (a @ ''/'')"
    then obtain xs where xs: "''.go'' = xs @ f" "xs \<noteq> []" "suffix xs (a @ ''/'')" by blast
    then have "last xs = CHR ''/''" by (auto simp: suffix_def) (metis last_appendR last_snoc)
    then have "CHR ''/'' \<in> set xs" using xs(2) last_in_set by metis
    then have "CHR ''/'' \<in> set ''.go''" using xs(1) by (metis Un_iff set_append)
    then show False by simp
  qed
  then show ?thesis
    unfolding HasSuffix_iff_suffix
    using suffix_append [of "''.go''" "a @ ''/''" f] by (auto simp: suffix_def)
qed

lemma pathOf_snoc: "pathOf (ns @ [f]) = (if ns = [] then f else joinSlash ns @ ''/'' @ f)"
  by (simp add: pathOf_def joinSlash_snoc)

lemma HasSuffix_go_pathOf:
  "strings_HasSuffix (pathOf (ns @ [f])) ''.go'' = strings_HasSuffix f ''.go''"
  using HasSuffix_go_path [of "joinSlash ns" f] by (simp add: pathOf_snoc)

lemma Dir_pathOf_snoc:
  "\<forall>n \<in> set ns. validName n \<Longrightarrow> validName f \<Longrightarrow> filepath_Dir (pathOf (ns @ [f])) = pathOf ns"
  using Dir_joinSlash [of ns f] by (simp add: pathOf_def validName_def)

lemma skipDir_skippedAt:
  "validName n \<Longrightarrow> skipDir ign n (pathOf (ns @ [n])) = skippedAt ign (ns @ [n])"
  by (auto simp: skipDir_def skippedAt_def validName_def)

lemma skipDir_root: "skipDir ign ''.'' ''.'' = skippedAt ign []"
  by (simp add: skipDir_def skippedAt_def pathOf_def)

lemma visitFile_eq:
  assumes "\<forall>n \<in> set ns. validName n" "validName f" "\<not> ign (pathOf ns)"
  shows "visitFile ign (pathOf (ns @ [f])) (pk, seen) =
     (if strings_HasSuffix f ''.go'' \<and> \<not> seen (pathOf ns)
      then (pk @ [''./'' @ pathOf ns], seen(pathOf ns := True))
      else (pk, seen))"
proof -
  have d: "filepath_Dir (pathOf (ns @ [f])) = pathOf ns"
    using assms(1,2) by (rule Dir_pathOf_snoc)
  show ?thesis
    using assms(3) by (simp add: visitFile_def HasSuffix_go_pathOf d Let_def)
qed

lemma visitFile_effect:
  assumes "\<forall>n \<in> set ns. validName n" "validName f" "\<not> ign (pathOf ns)" "walkInv st"
  shows "walkInv (visitFile ign (pathOf (ns @ [f])) st)
    \<and> seenSet (visitFile ign (pathOf (ns @ [f])) st) =
        seenSet st \<union> (if strings_HasSuffix f ''.go'' then {pathOf ns} else {})"
proof -
  obtain pk seen where st: "st = (pk, seen)" by (cases st)
  note eq = visitFile_eq [of ns f ign pk seen, OF assms(1,2,3)]
  have inv: "distinct pk" "set pk = (\<lambda>d. ''./'' @ d) ` {d. seen d}"
    using assms(4) by (simp_all add: st walkInv_def seenSet_def)
  show ?thesis
  proof (cases "strings_HasSuffix f ''.go'' \<and> \<not> seen (pathOf ns)")
    case True
    have new: "''./'' @ pathOf ns \<notin> set pk"
      using True inv(2) by auto
    have "{d. (seen(pathOf ns := True)) d} = insert (pathOf ns) {d. seen d}"
      by auto
    then show ?thesis
      using True inv new by (simp add: st eq walkInv_def seenSet_def)
  next
    case False
    then have "seenSet st \<union> (if strings_HasSuffix f ''.go'' then {pathOf ns} else {}) = seenSet st"
      by (auto simp: st seenSet_def)
    moreover have "visitFile ign (pathOf (ns @ [f])) (pk, seen) = (pk, seen)"
      by (simp only: eq if_not_P [OF False])
    ultimately show ?thesis
      using assms(4) by (simp add: st)
  qed
qed

lemma entryDirs_union:
  "(if hasGoFile entries then {ns} else {})
     \<union> (\<Union>e \<in> set entries. goDirsBelow ign (ns @ [fst e]) (snd e))
   = (\<Union>e \<in> set entries. entryDirs ign ns e)"
  (is "?L = ?R")
proof (intro set_eqI iffI)
  fix p assume "p \<in> ?L"
  then consider (gofile) "hasGoFile entries" "p = ns"
    | (sub) e where "e \<in> set entries" "p \<in> goDirsBelow ign (ns @ [fst e]) (snd e)"
    by (auto split: if_splits)
  then show "p \<in> ?R"
  proof cases
    case gofile
    then obtain f where "(f, File) \<in> set entries" "strings_HasSuffix f ''.go''"
      by (auto simp: hasGoFile_def)
    then have "(f, File) \<in> set entries \<and> p \<in> entryDirs ign ns (f, File)"
      using gofile(2) by (simp add: entryDirs_def)
    then show ?thesis by blast
  next
    case sub
    then have "p \<in> entryDirs ign ns e"
      by (cases "snd e") (simp_all add: entryDirs_def goDirsBelow_nondir)
    then show ?thesis using sub(1) by blast
  qed
next
  fix p assume "p \<in> ?R"
  then obtain e where e: "e \<in> set entries" "p \<in> entryDirs ign ns e" by blast
  show "p \<in> ?L"
  proof (cases "snd e = File")
    case True
    then have "strings_HasSuffix (fst e) ''.go''" "p = ns"
      using e(2) by (auto simp: entryDirs_def split: if_splits)
    moreover have "(fst e, File) \<in> set entries" using e(1) True by (metis prod.collapse)
    ultimately have "hasGoFile entries" by (auto simp: hasGoFile_def)
    then show ?thesis using \<open>p = ns\<close> by simp
  next
    case False
    then have "p \<in> goDirsBelow ign (ns @ [fst e]) (snd e)"
      using e(2) by (cases "snd e") (simp_all add: entryDirs_def)
    then show ?thesis using e(1) by blast
  qed
qed

lemma walk_collects:
  "(\<forall>ns st'. path = pathOf (ns @ [name]) \<longrightarrow> (\<forall>n \<in> set ns. validName n) \<longrightarrow> validName name
      \<longrightarrow> validTree node \<longrightarrow> \<not> ign (pathOf ns) \<longrightarrow> walkInv st
      \<longrightarrow> walk ign path name node st = Inr st'
      \<longrightarrow> walkInv st' \<and> seenSet st' = seenSet st \<union> pathOf ` entryDirs ign ns (name, node))"
  "(\<forall>ns st'. path' = pathOf ns \<longrightarrow> (\<forall>n \<in> set ns. validName n)
      \<longrightarrow> validEntries entries \<longrightarrow> \<not> ign (pathOf ns) \<longrightarrow> walkInv stt
      \<longrightarrow> walkNames ign path' entries stt = Inr st'
      \<longrightarrow> walkInv st' \<and> seenSet st' = seenSet stt \<union> pathOf ` (\<Union>e \<in> set entries. entryDirs ign ns e))"
proof (induction ign path name node st and ign path' entries stt rule: walk_walkNames.induct)
  case (1 shouldIgnore path name st)
  show ?case by simp
next
  case (2 shouldIgnore path name st)
  show ?case by simp
next
  case (3 shouldIgnore path name st)
  show ?case
  proof (intro allI impI)
    fix ns st'
    assume h: "path = pathOf (ns @ [name])" "\<forall>n \<in> set ns. validName n" "validName name"
      "\<not> shouldIgnore (pathOf ns)" "walkInv st"
      "walk shouldIgnore path name File st = Inr st'"
    have "st' = visitFile shouldIgnore (pathOf (ns @ [name])) st"
      using h(1,6) by simp
    moreover have "pathOf ` entryDirs shouldIgnore ns (name, File) =
        (if strings_HasSuffix name ''.go'' then {pathOf ns} else {})"
      by (simp add: entryDirs_def)
    ultimately show "walkInv st' \<and> seenSet st' = seenSet st \<union> pathOf ` entryDirs shouldIgnore ns (name, File)"
      using visitFile_effect [of ns name shouldIgnore st, OF h(2,3,4,5)] by simp
  qed
next
  case (4 shouldIgnore path name entries st)
  show ?case
  proof (intro allI impI)
    fix ns st'
    assume h: "path = pathOf (ns @ [name])" "\<forall>n \<in> set ns. validName n" "validName name"
      "validTree (Dir entries)" "\<not> shouldIgnore (pathOf ns)" "walkInv st"
      "walk shouldIgnore path name (Dir entries) st = Inr st'"
    have sk: "skipDir shouldIgnore name path = skippedAt shouldIgnore (ns @ [name])"
      using h(1,3) by (simp add: skipDir_skippedAt)
    show "walkInv st' \<and> seenSet st' = seenSet st \<union> pathOf ` entryDirs shouldIgnore ns (name, Dir entries)"
    proof (cases "skipDir shouldIgnore name path")
      case True
      have "entryDirs shouldIgnore ns (name, Dir entries) = {}"
        using True sk by (simp add: entryDirs_def goDirsBelow_Dir)
      then show ?thesis
        using h True by simp
    next
      case False
      have ni: "\<not> shouldIgnore (pathOf (ns @ [name]))"
        using False h(1) by (simp add: skipDir_def)
      have w: "walkNames shouldIgnore path entries st = Inr st'"
        using h(7) False by simp
      have ve: "validEntries entries" using h(4) by simp
      have vn: "\<forall>n \<in> set (ns @ [name]). validName n" using h(2,3) by simp
      have "walkInv st' \<and> seenSet st' =
          seenSet st \<union> pathOf ` (\<Union>e \<in> set entries. entryDirs shouldIgnore (ns @ [name]) e)"
        using "4.IH" [OF False, rule_format, of "ns @ [name]" st', OF h(1) vn [rule_format] ve ni h(6) w] .
      moreover have "entryDirs shouldIgnore ns (name, Dir entries) =
          (\<Union>e \<in> set entries. entryDirs shouldIgnore (ns @ [name]) e)"
      proof -
        have "entryDirs shouldIgnore ns (name, Dir entries) =
            goDirsBelow shouldIgnore (ns @ [name]) (Dir entries)"
          by (simp add: entryDirs_def)
        also have "\<dots> = (if hasGoFile entries then {ns @ [name]} else {})
            \<union> (\<Union>e \<in> set entries. goDirsBelow shouldIgnore ((ns @ [name]) @ [fst e]) (snd e))"
          using False sk by (simp only: goDirsBelow_Dir if_False)
        also have "\<dots> = (\<Union>e \<in> set entries. entryDirs shouldIgnore (ns @ [name]) e)"
          by (rule entryDirs_union)
        finally show ?thesis .
      qed
      ultimately show ?thesis by simp
    qed
  qed
next
  case (5 shouldIgnore path st)
  show ?case by simp
next
  case (6 shouldIgnore path e rest st)
  show ?case
  proof (intro allI impI)
    fix ns st'
    assume h: "path = pathOf ns" "\<forall>n \<in> set ns. validName n" "validEntries (e # rest)"
      "\<not> shouldIgnore (pathOf ns)" "walkInv st"
      "walkNames shouldIgnore path (e # rest) st = Inr st'"
    have j: "filepath_Join path (fst e) = pathOf (ns @ [fst e])"
      using h(1,2,3) by (simp add: Join_pathOf)
    obtain st1 where st1: "walk shouldIgnore (filepath_Join path (fst e)) (fst e) (snd e) st = Inr st1"
        "walkNames shouldIgnore path rest st1 = Inr st'"
      using h(6) by (auto split: sum.splits)
    have a: "walkInv st1 \<and> seenSet st1 = seenSet st \<union> pathOf ` entryDirs shouldIgnore ns (fst e, snd e)"
      using "6.IH"(1) [rule_format, of ns st1] j h st1(1) by simp
    have b: "walkInv st' \<and> seenSet st' =
        seenSet st1 \<union> pathOf ` (\<Union>e \<in> set rest. entryDirs shouldIgnore ns e)"
      using "6.IH"(2) [OF st1(1), rule_format, of ns st'] h st1(2) a by simp
    have "pathOf ` (\<Union>e \<in> set (e # rest). entryDirs shouldIgnore ns e) =
        pathOf ` entryDirs shouldIgnore ns (fst e, snd e)
          \<union> pathOf ` (\<Union>e \<in> set rest. entryDirs shouldIgnore ns e)"
      by (simp add: image_Un)
    then show "walkInv st' \<and> seenSet st' =
        seenSet st \<union> pathOf ` (\<Union>e \<in> set (e # rest). entryDirs shouldIgnore ns e)"
      using a b by (simp add: Un_assoc)
  qed
qed

lemma walkInv_init: "walkInv ([], \<lambda>dir. False)"
  by (simp add: walkInv_def seenSet_def)

lemma os_basename_dot: "os_basename ''.'' = ''.''"
  by (simp add: os_basename_def)

lemma walk_returns:
  "readableTree node \<longrightarrow> (\<exists>st'. walk ign path name node st = Inr st')"
  "readableEntries entries \<longrightarrow> (\<exists>st'. walkNames ign path' entries stt = Inr st')"
proof (induction ign path name node st and ign path' entries stt rule: walk_walkNames.induct)
  case (6 shouldIgnore path e rest st)
  show ?case
  proof
    assume r: "readableEntries (e # rest)"
    then obtain st1 where s: "walk shouldIgnore (filepath_Join path (fst e)) (fst e) (snd e) st = Inr st1"
      using "6.IH"(1) by auto
    then obtain st2 where "walkNames shouldIgnore path rest st1 = Inr st2"
      using "6.IH"(2) [OF s] r by auto
    then show "\<exists>st'. walkNames shouldIgnore path (e # rest) st = Inr st'"
      using s by simp
  qed
qed auto

lemma findGoPackages_returns:
  "readableTree tree \<Longrightarrow> \<exists>packages. findGoPackages ign root tree = Inr packages"
  using walk_returns(1) [of tree ign root "os_basename root" "([], \<lambda>dir. False)"]
  by (auto simp: findGoPackages_def split: prod.splits)

lemma findGoPackages_set:
  assumes "validTree tree" "findGoPackages shouldIgnore ''.'' tree = Inr packages"
  shows "distinct packages
    \<and> set packages = (\<lambda>ns. ''./'' @ pathOf ns) ` goPackageDirs shouldIgnore tree"
proof -
  let ?st0 = "([], \<lambda>dir. False) :: walkState"
  obtain seen where w: "walk shouldIgnore ''.'' ''.'' tree ?st0 = Inr (packages, seen)"
    using assms(2) by (auto simp: findGoPackages_def os_basename_dot split: sum.splits)
  show ?thesis
  proof (cases tree)
    case File
    have "visitFile shouldIgnore ''.'' ?st0 = ?st0"
      by (simp add: visitFile_def strings_HasSuffix_def)
    then have "packages = []" using w File by simp
    then show ?thesis
      using File by (simp add: goPackageDirs_def goDirsBelow_nondir)
  next
    case (Dir entries)
    show ?thesis
    proof (cases "skipDir shouldIgnore ''.'' ''.''")
      case True
      then have "packages = []" using w Dir by simp
      moreover have "goPackageDirs shouldIgnore tree = {}"
        using True Dir by (simp add: goPackageDirs_def goDirsBelow_Dir skipDir_root)
      ultimately show ?thesis by simp
    next
      case False
      have wn: "walkNames shouldIgnore (pathOf []) entries ?st0 = Inr (packages, seen)"
        using w Dir False by (simp add: pathOf_def)
      have ni: "\<not> shouldIgnore (pathOf [])"
        using False by (simp add: skipDir_def pathOf_def)
      have ve: "validEntries entries" using assms(1) Dir by simp
      have r: "walkInv (packages, seen) \<and> seenSet (packages, seen) =
          seenSet ?st0 \<union> pathOf ` (\<Union>e \<in> set entries. entryDirs shouldIgnore [] e)"
        using walk_collects(2) [where ign = shouldIgnore and path' = "pathOf []"
              and entries = entries and stt = ?st0, rule_format, of "[]" "(packages, seen)"]
            ve ni walkInv_init wn
        by simp
      have "goPackageDirs shouldIgnore tree = (\<Union>e \<in> set entries. entryDirs shouldIgnore [] e)"
        using False Dir entryDirs_union [of entries "[]" shouldIgnore]
        by (simp add: goPackageDirs_def goDirsBelow_Dir skipDir_root)
      then show ?thesis
        using r by (simp add: walkInv_def seenSet_def image_image)
    qed
  next
    case UnreadableDir
    then show ?thesis using w by simp
  next
    case NoStat
    then show ?thesis using w by simp
  qed
qed

text \<open>
  Claim C3. On a directory tree whose entries have the names of directory entries,
  \<^verbatim>\<open>findGoPackages(".")\<close> returns a list when every entry the walk could meet can be
  read, and a list it returns has no element twice and holds exactly the paths
  (written \<^verbatim>\<open>./path\<close>) of the directories that have, among their entries that are not
  directories, one whose name ends in \<^verbatim>\<open>.go\<close>, and that are not at or below a skipped
  directory: one whose name starts with a dot (the root \<^verbatim>\<open>.\<close> apart), or is
  \<^verbatim>\<open>vendor\<close> or \<^verbatim>\<open>testdata\<close>, or of whose path \<^verbatim>\<open>shouldIgnore\<close> holds.
\<close>

theorem findGoPackages_result:
  assumes "validTree tree"
  shows "(readableTree tree \<longrightarrow> (\<exists>packages. findGoPackages shouldIgnore ''.'' tree = Inr packages))
    \<and> (\<forall>packages. findGoPackages shouldIgnore ''.'' tree = Inr packages \<longrightarrow>
          distinct packages
          \<and> set packages = (\<lambda>ns. ''./'' @ pathOf ns) ` goPackageDirs shouldIgnore tree)"
  using assms findGoPackages_returns [of tree shouldIgnore "''.''"]
    findGoPackages_set [of tree shouldIgnore]
  by blast

lemma validTree_tree1: "validTree tree1"
  by (simp add: tree1_def validName_def)

lemma findGoPackages_tree1:
  "findGoPackages (\<lambda>path. strings_Contains path ''docs'') ''.'' tree1 = Inr [''./cmd/tool'', ''./.'']"
  by (simp add: findGoPackages_def tree1_def os_basename_def skipDir_def visitFile_def
      filepath_Join_def strings_HasSuffix_def eval_defs Let_def)

theorem findGoPackages_result_witness:
  "validTree tree1
   \<and> readableTree tree1
   \<and> findGoPackages (\<lambda>path. strings_Contains path ''docs'') ''.'' tree1 = Inr [''./cmd/tool'', ''./.'']
   \<and> (\<lambda>ns. ''./'' @ pathOf ns) ` goPackageDirs (\<lambda>path. strings_Contains path ''docs'') tree1
       = {''./cmd/tool'', ''./.''}"
proof -
  have r: "readableTree tree1" by (simp add: tree1_def)
  note t = findGoPackages_result [OF validTree_tree1, of "\<lambda>path. strings_Contains path ''docs''"]
  have "(\<lambda>ns. ''./'' @ pathOf ns) ` goPackageDirs (\<lambda>path. strings_Contains path ''docs'') tree1
       = set [''./cmd/tool'', ''./.'']"
    using t [THEN conjunct2, rule_format, OF findGoPackages_tree1] by simp
  then show ?thesis
    using validTree_tree1 r findGoPackages_tree1 by simp
qed


subsection \<open>The run\<close>

lemma run_events:
  assumes "findGoPackages (shouldIgnoreFn e (ignorePatterns g)) ''.'' (fsTree e) = Inr packages"
    and "packages \<noteq> []"
  shows "\<exists>after. snd (run e g userArgs) =
      (announce (verbose g) packages
        @ (if verbose g
           then [Out (''Running: go '' @ strings_Join (goTestArgs userArgs packages) '' '' @ [CHR 0x0A, CHR 0x0A])]
           else []))
      @ [Exec ''go'' (goTestArgs userArgs packages)]
      @ runTests (verbose g) (goTest e (goTestArgs userArgs packages))
      @ [statusLine (goTest e (goTestArgs userArgs packages))]
      @ after"
  using assms
  by (auto simp: run_def Let_def statusLine_def split: option.splits prod.splits)


lemma find_first_exec:
  assumes "\<forall>ev \<in> set before. \<not> isExec ev"
  shows "List.find isExec (before @ [Exec prog args] @ after) = Some (Exec prog args)"
  using assms by (induction before) (auto simp: isExec_def)

lemma announce_no_exec: "\<forall>ev \<in> set (announce verb packages). \<not> isExec ev"
  by (auto simp: announce_def isExec_def)

lemma parseFlags_fst: "fst (parseFlags g args) = passThrough args"
  by (simp add: parseFlags_def parseFlagsLoop_eq)

text \<open>
  Claim C4. When \<^verbatim>\<open>main\<close> reaches \<^verbatim>\<open>run\<close> (no help flag) and at least one package is
  found, the first command the program starts is \<^verbatim>\<open>go\<close> with the arguments
  \<^verbatim>\<open>test\<close>, \<^verbatim>\<open>-coverprofile=/tmp/cover.out\<close>, \<^verbatim>\<open>-covermode=atomic\<close>, then the
  pass-through arguments of the command line in their order, then the packages found.
\<close>

theorem test_runner_command_line:
  assumes "parseFlags \<lparr>verbose = False, ignorePatterns = []\<rparr> osArgs = (userArgs, g)"
    and "\<not> list_ex isHelpFlag userArgs"
    and "findGoPackages (shouldIgnoreFn e (ignorePatterns g)) ''.'' (fsTree e) = Inr packages"
    and "packages \<noteq> []"
  shows "userArgs = passThrough osArgs
    \<and> List.find isExec (snd (run e g userArgs)) =
        Some (Exec ''go'' ([''test'', ''-coverprofile=/tmp/cover.out'', ''-covermode=atomic'']
                            @ userArgs @ packages))
    \<and> List.find isExec (snd (main e osArgs)) =
        Some (Exec ''go'' ([''test'', ''-coverprofile=/tmp/cover.out'', ''-covermode=atomic'']
                            @ passThrough osArgs @ packages))"
proof -
  have ua: "userArgs = passThrough osArgs"
    using assms(1) parseFlags_fst [of "\<lparr>verbose = False, ignorePatterns = []\<rparr>" osArgs] by simp
  let ?before = "announce (verbose g) packages
        @ (if verbose g
           then [Out (''Running: go '' @ strings_Join (goTestArgs userArgs packages) '' '' @ [CHR 0x0A, CHR 0x0A])]
           else [])"
  obtain after where ev: "snd (run e g userArgs) =
      ?before @ [Exec ''go'' (goTestArgs userArgs packages)]
      @ runTests (verbose g) (goTest e (goTestArgs userArgs packages))
      @ [statusLine (goTest e (goTestArgs userArgs packages))] @ after"
    using run_events [OF assms(3,4)] by blast
  have nb: "\<forall>ev \<in> set ?before. \<not> isExec ev"
    using announce_no_exec by (auto simp: isExec_def)
  have args: "goTestArgs userArgs packages =
      [''test'', ''-coverprofile=/tmp/cover.out'', ''-covermode=atomic''] @ userArgs @ packages"
    by (simp add: goTestArgs_def coverProfile_def)
  have r: "List.find isExec (snd (run e g userArgs)) = Some (Exec ''go'' (goTestArgs userArgs packages))"
    unfolding ev using nb by (rule find_first_exec)
  have m: "snd (main e osArgs) = snd (run e g userArgs) @
      (case fst (run e g userArgs) of None \<Rightarrow> [] | Some err \<Rightarrow> [ErrError err])"
    using assms(1,2) by (simp add: main_def split: prod.splits option.splits)
  have "List.find isExec (xs @ ys) = Some x" if "List.find isExec xs = Some x" for xs ys x
    using that by (induction xs) (auto split: if_splits)
  then have "List.find isExec (snd (main e osArgs)) = Some (Exec ''go'' (goTestArgs userArgs packages))"
    unfolding m using r by blast
  then show ?thesis
    using ua r args by simp
qed





lemma find_env1:
  "findGoPackages (shouldIgnoreFn env1 []) ''.'' (Dir [(''main.go'', File)]) = Inr [''./.'']"
  by (simp add: findGoPackages_def env1_def os_basename_def skipDir_def visitFile_def
      filepath_Join_def strings_HasSuffix_def eval_defs Let_def)

lemma find_env1_any:
  "findGoPackages (shouldIgnoreFn (env1\<lparr>coverOut := c, goos := os\<rparr>) []) ''.'' (Dir [(''main.go'', File)]) = Inr [''./.'']"
  using find_env1 by (simp add: env1_def)



lemma patternsOfValue_docs: "patternsOfValue ''docs'' = [''docs'']"
  by (simp add: patternsOfValue_def strings_TrimSpace_def lastSpaceWidth_def spaceWidth_def asciiSpace_def)

lemma parseFlags_ex:
  "parseFlags \<lparr>verbose = False, ignorePatterns = []\<rparr> [''-i'', ''docs'', ''-run'', ''TestX'']
     = ([''-run'', ''TestX''], \<lparr>verbose = False, ignorePatterns = [''docs'']\<rparr>)"
  by (simp add: parseFlags_def parseFlagsLoop_eq isDetailFlag_def isIgnoreFlag_def ignoreEqValue_def
      strings_HasPrefix_def patternsOfValue_docs)

lemma find_env0:
  "findGoPackages (shouldIgnoreFn env0 [''docs'']) ''.'' (fsTree env0) = Inr [''./cmd/tool'', ''./.'']"
  using findGoPackages_tree1 by (simp add: env0_def env1_def)

theorem test_runner_command_line_witness:
  "parseFlags \<lparr>verbose = False, ignorePatterns = []\<rparr> [''-i'', ''docs'', ''-run'', ''TestX'']
     = ([''-run'', ''TestX''], \<lparr>verbose = False, ignorePatterns = [''docs'']\<rparr>)
   \<and> \<not> list_ex isHelpFlag [''-run'', ''TestX'']
   \<and> findGoPackages (shouldIgnoreFn env0 [''docs'']) ''.'' (fsTree env0) = Inr [''./cmd/tool'', ''./.'']
   \<and> List.find isExec (snd (main env0 [''-i'', ''docs'', ''-run'', ''TestX''])) =
       Some (Exec ''go'' [''test'', ''-coverprofile=/tmp/cover.out'', ''-covermode=atomic'',
                          ''-run'', ''TestX'', ''./cmd/tool'', ''./.''])"
proof -
  have h: "\<not> list_ex isHelpFlag [''-run'', ''TestX'']"
    by (simp add: isHelpFlag_def)
  have f: "findGoPackages (shouldIgnoreFn env0 (ignorePatterns \<lparr>verbose = False, ignorePatterns = [''docs'']\<rparr>))
      ''.'' (fsTree env0) = Inr [''./cmd/tool'', ''./.'']"
    using find_env0 by simp
  have ne: "[''./cmd/tool'', ''./.''] \<noteq> []" by simp
  note t = test_runner_command_line [OF parseFlags_ex h f ne]
  have p: "passThrough [''-i'', ''docs'', ''-run'', ''TestX''] = [''-run'', ''TestX'']"
    using t [THEN conjunct1] by simp
  have "List.find isExec (snd (main env0 [''-i'', ''docs'', ''-run'', ''TestX''])) =
       Some (Exec ''go'' [''test'', ''-coverprofile=/tmp/cover.out'', ''-covermode=atomic'',
                          ''-run'', ''TestX'', ''./cmd/tool'', ''./.''])"
    using t [THEN conjunct2, THEN conjunct2] by (simp only: p) simp
  then show ?thesis
    using parseFlags_ex h find_env0 by simp
qed




end
